theory Spec2Isabelle
  imports
    Complex_Main
    "HOL-Library.Log_Nat"
    "HOL-Library.Multiset"
    "HOL-Library.Char_ord"
    "HOL-Library.List_Lexorder"
begin

section \<open>Binary64 arithmetic\<close>

text \<open>
  Both scripts compute with Python floats and NumPy \<open>float64\<close> columns. A finite value is
  kept as the rational it denotes; every arithmetic operation computes the exact rational
  result and rounds it to the nearest binary64 value, ties to even, overflowing to an
  infinity. The sign of zero is not represented: the only divisions by zero in the
  scripts have a denominator converted from an integer, which is \<open>+0.0\<close>.
\<close>

datatype f64 = Fin rat | PInf | NInf | NaN

definition rne :: "rat \<Rightarrow> int" where
  "rne q = (let f = \<lfloor>q\<rfloor>; d = q - of_int f in
     if d < 1/2 then f else if 1/2 < d then f + 1 else if even f then f else f + 1)"

definition ilog2 :: "rat \<Rightarrow> int" where
  "ilog2 q = (case quotient_of q of (a, b) \<Rightarrow>
     let k = bitlen a - bitlen b in if 2 powi k \<le> q then k else k - 1)"

definition ulp_exp :: "rat \<Rightarrow> int" where
  "ulp_exp q = max (ilog2 \<bar>q\<bar> - 52) (- 1074)"

definition fl :: "rat \<Rightarrow> rat" where
  "fl q = (if q = 0 then 0 else
     let u = 2 powi (ulp_exp q) in of_int (rne (q / u)) * u)"

text \<open>
  \<open>fl\<close> rounds as if the exponent had no upper bound; the result overflows when its
  magnitude reaches \<open>2 ^ 1024\<close>, the first such value above the largest binary64 number.
\<close>

definition round64 :: "rat \<Rightarrow> f64" where
  "round64 q = (let r = fl q in
     if r \<noteq> 0 \<and> 1024 \<le> ilog2 \<bar>r\<bar> then (if 0 < r then PInf else NInf) else Fin r)"

fun f_neg :: "f64 \<Rightarrow> f64" where
  "f_neg (Fin a) = Fin (- a)"
| "f_neg PInf = NInf"
| "f_neg NInf = PInf"
| "f_neg NaN = NaN"

fun f_add :: "f64 \<Rightarrow> f64 \<Rightarrow> f64" where
  "f_add (Fin a) (Fin b) = round64 (a + b)"
| "f_add NaN _ = NaN"
| "f_add _ NaN = NaN"
| "f_add PInf NInf = NaN"
| "f_add NInf PInf = NaN"
| "f_add PInf _ = PInf"
| "f_add NInf _ = NInf"
| "f_add _ PInf = PInf"
| "f_add _ NInf = NInf"

definition f_sub :: "f64 \<Rightarrow> f64 \<Rightarrow> f64" where
  "f_sub x y = f_add x (f_neg y)"

definition f_sign_inf :: "bool \<Rightarrow> f64" where
  "f_sign_inf negative = (if negative then NInf else PInf)"

fun f_mul :: "f64 \<Rightarrow> f64 \<Rightarrow> f64" where
  "f_mul (Fin a) (Fin b) = round64 (a * b)"
| "f_mul NaN _ = NaN"
| "f_mul _ NaN = NaN"
| "f_mul (Fin a) PInf = (if a = 0 then NaN else f_sign_inf (a < 0))"
| "f_mul (Fin a) NInf = (if a = 0 then NaN else f_sign_inf (0 < a))"
| "f_mul PInf (Fin b) = (if b = 0 then NaN else f_sign_inf (b < 0))"
| "f_mul NInf (Fin b) = (if b = 0 then NaN else f_sign_inf (0 < b))"
| "f_mul PInf PInf = PInf"
| "f_mul NInf NInf = PInf"
| "f_mul PInf NInf = NInf"
| "f_mul NInf PInf = NInf"

fun f_div :: "f64 \<Rightarrow> f64 \<Rightarrow> f64" where
  "f_div (Fin a) (Fin b) =
     (if b = 0 then (if a = 0 then NaN else f_sign_inf (a < 0)) else round64 (a / b))"
| "f_div NaN _ = NaN"
| "f_div _ NaN = NaN"
| "f_div (Fin a) PInf = Fin 0"
| "f_div (Fin a) NInf = Fin 0"
| "f_div PInf (Fin b) = f_sign_inf (b < 0)"
| "f_div NInf (Fin b) = f_sign_inf (0 \<le> b)"
| "f_div PInf PInf = NaN"
| "f_div PInf NInf = NaN"
| "f_div NInf PInf = NaN"
| "f_div NInf NInf = NaN"

definition f_of_int :: "int \<Rightarrow> f64" where
  "f_of_int i = round64 (of_int i)"

text \<open>The comparisons of IEEE 754: every comparison with a NaN is false.\<close>

fun f_le :: "f64 \<Rightarrow> f64 \<Rightarrow> bool" where
  "f_le NaN _ = False"
| "f_le _ NaN = False"
| "f_le NInf _ = True"
| "f_le _ PInf = True"
| "f_le (Fin a) (Fin b) = (a \<le> b)"
| "f_le PInf _ = False"
| "f_le (Fin a) NInf = False"

definition f_lt :: "f64 \<Rightarrow> f64 \<Rightarrow> bool" where
  "f_lt x y = (f_le x y \<and> x \<noteq> y)"

definition is_inf_or_nan :: "f64 \<Rightarrow> bool" where
  "is_inf_or_nan x = (x = PInf \<or> x = NInf \<or> x = NaN)"

section \<open>The report builder: data frames\<close>

text \<open>
  A data frame is the list of its rows. \<open>csv_row\<close> is a row as \<open>read_csv\<close> delivers it,
  \<open>hr_record\<close> the same row after \<open>load_data\<close> has added the column \<open>month_date\<close>, a
  \<open>datetime64\<close> value, that is an integer count of nanoseconds. Integer columns are
  \<open>int64\<close>: a cell lies in the signed 64-bit range and column sums wrap around.
\<close>

record csv_row =
  month :: string
  department :: string
  headcount :: int
  new_hires :: int
  terminations :: int
  open_positions :: int
  time_to_fill_days :: int
  offer_acceptance_rate :: f64
  turnover_rate :: f64

record hr_record = csv_row +
  month_date :: int

record monthly_agg =
  m_month_date :: int
  m_headcount :: int
  m_new_hires :: int
  m_terminations :: int
  m_open_positions :: int
  m_avg_time_to_fill :: f64
  m_avg_offer_acceptance :: f64
  m_avg_turnover_rate :: f64

record monthly_row = monthly_agg +
  headcount_mom_pct :: f64
  new_hires_mom_pct :: f64
  turnover_mom_delta :: f64

record dept_row =
  d_department :: string
  d_headcount :: int
  d_turnover_rate :: f64
  d_time_to_fill_days :: f64

datatype error =
  FileNotFoundError | FileExistsError | IsADirectoryError | ParserError | ValueError | IndexError
  | KeyError | OverflowError

definition int64_wrap :: "int \<Rightarrow> int" where
  "int64_wrap x = (x + 2 ^ 63) mod 2 ^ 64 - 2 ^ 63"

definition agg_sum :: "int list \<Rightarrow> int" where
  "agg_sum xs = int64_wrap (sum_list xs)"

text \<open>
  The group mean of pandas: the values that are not NaN are added with Kahan's
  compensated summation, a compensation that has become NaN is reset to zero, and the
  sum is divided by the number of values added. A group with no value gives NaN.
\<close>

fun kahan_step :: "f64 \<times> f64 \<Rightarrow> f64 \<Rightarrow> f64 \<times> f64" where
  "kahan_step (sumx, compensation) val =
     (let y = f_sub val compensation;
          t = f_add sumx y;
          c = f_sub (f_sub t sumx) y
      in (t, if c = NaN then Fin 0 else c))"

definition agg_mean :: "f64 list \<Rightarrow> f64" where
  "agg_mean vals =
     (let obs = filter (\<lambda>v. v \<noteq> NaN) vals;
          sumx = fst (foldl kahan_step (Fin 0, Fin 0) obs)
      in if obs = [] then NaN else f_div sumx (f_of_int (int (length obs))))"

text \<open>
  \<open>groupby\<close> with its default \<open>sort=True\<close>: one group for each distinct key, the groups
  in ascending key order, the rows of a group in their order in the frame.
\<close>

definition groupby :: "('r \<Rightarrow> 'k::linorder) \<Rightarrow> 'r list \<Rightarrow> ('k \<times> 'r list) list" where
  "groupby key df = map (\<lambda>k. (k, filter (\<lambda>r. key r = k) df)) (sort (remdups (map key df)))"

text \<open>
  \<open>sort_values\<close> is called without \<open>kind\<close>, so the index permutation comes from NumPy's
  \<open>argsort\<close> with \<open>kind='quicksort'\<close>, which is not a stable sort and whose algorithm
  depends on the NumPy build. The routine is therefore a parameter of the model, and
  \<open>valid_argsort\<close> is all that is known of it: on keys without a missing value it
  returns a permutation of the positions along which the keys ascend. \<open>nargsort\<close> is
  the wrapper of pandas around it: missing keys are set aside and placed last, and a
  descending sort reverses the keys before the call and the permutation after it.
\<close>

definition valid_argsort ::
  "('k \<Rightarrow> bool) \<Rightarrow> ('k \<Rightarrow> 'k \<Rightarrow> bool) \<Rightarrow> ('k list \<Rightarrow> nat list) \<Rightarrow> bool" where
  "valid_argsort isna le srt \<longleftrightarrow>
     (\<forall>ks. (\<forall>k \<in> set ks. \<not> isna k) \<longrightarrow>
        mset (srt ks) = mset [0..<length ks] \<and> sorted_wrt le (map (\<lambda>i. ks ! i) (srt ks)))"

definition nargsort ::
  "('k \<Rightarrow> bool) \<Rightarrow> ('k list \<Rightarrow> nat list) \<Rightarrow> 'k list \<Rightarrow> bool \<Rightarrow> nat list" where
  "nargsort isna srt items ascending =
     (let idx = [0..<length items];
          non_nan_idx = filter (\<lambda>i. \<not> isna (items ! i)) idx;
          nan_idx = filter (\<lambda>i. isna (items ! i)) idx;
          non_nans = map (\<lambda>i. items ! i) non_nan_idx;
          indexer =
            (if ascending then map (\<lambda>j. non_nan_idx ! j) (srt non_nans)
             else rev (map (\<lambda>j. rev non_nan_idx ! j) (srt (rev non_nans))))
      in indexer @ nan_idx)"

definition sort_values ::
  "('k \<Rightarrow> bool) \<Rightarrow> ('k list \<Rightarrow> nat list) \<Rightarrow> ('r \<Rightarrow> 'k) \<Rightarrow> bool \<Rightarrow> 'r list \<Rightarrow> 'r list" where
  "sort_values isna srt col ascending frame =
     map (\<lambda>i. frame ! i) (nargsort isna srt (map col frame) ascending)"

definition int_isna :: "int \<Rightarrow> bool" where
  "int_isna k = False"

definition f64_isna :: "f64 \<Rightarrow> bool" where
  "f64_isna x = (x = NaN)"

abbreviation valid_int_argsort :: "(int list \<Rightarrow> nat list) \<Rightarrow> bool" where
  "valid_int_argsort \<equiv> valid_argsort int_isna (\<le>)"

abbreviation valid_f64_argsort :: "(f64 list \<Rightarrow> nat list) \<Rightarrow> bool" where
  "valid_f64_argsort \<equiv> valid_argsort f64_isna f_le"

text \<open>Positional access \<open>.iloc[i]\<close>: a negative position counts from the end.\<close>

definition iloc :: "'a list \<Rightarrow> int \<Rightarrow> error + 'a" where
  "iloc frame i =
     (if 0 \<le> i \<and> i < int (length frame) then Inr (frame ! nat i)
      else if i < 0 \<and> - int (length frame) \<le> i then Inr (frame ! nat (int (length frame) + i))
      else Inl IndexError)"

text \<open>
  \<open>shift(1)\<close> moves a column down by one row and fills the first row with NaN;
  \<open>pct_change\<close> is \<open>data / data.shift(1) - 1\<close> and \<open>diff\<close> is \<open>data - data.shift(1)\<close>.
\<close>

definition shift :: "f64 list \<Rightarrow> f64 list" where
  "shift xs = (if xs = [] then [] else NaN # butlast xs)"

definition pct_change :: "f64 list \<Rightarrow> f64 list" where
  "pct_change xs = map (\<lambda>(cur, prev). f_sub (f_div cur prev) (Fin 1)) (zip xs (shift xs))"

definition diff :: "f64 list \<Rightarrow> f64 list" where
  "diff xs = map (\<lambda>(cur, prev). f_sub cur prev) (zip xs (shift xs))"

section \<open>The report builder: \<open>build_insights\<close>\<close>

definition month_agg :: "int \<times> hr_record list \<Rightarrow> monthly_agg" where
  "month_agg g = (case g of (k, rows) \<Rightarrow>
     \<lparr> m_month_date = k,
       m_headcount = agg_sum (map headcount rows),
       m_new_hires = agg_sum (map new_hires rows),
       m_terminations = agg_sum (map terminations rows),
       m_open_positions = agg_sum (map open_positions rows),
       m_avg_time_to_fill = agg_mean (map (\<lambda>r. f_of_int (time_to_fill_days r)) rows),
       m_avg_offer_acceptance = agg_mean (map offer_acceptance_rate rows),
       m_avg_turnover_rate = agg_mean (map turnover_rate rows) \<rparr>)"

definition dept_agg :: "string \<times> hr_record list \<Rightarrow> dept_row" where
  "dept_agg g = (case g of (k, rows) \<Rightarrow>
     \<lparr> d_department = k,
       d_headcount = agg_sum (map headcount rows),
       d_turnover_rate = agg_mean (map turnover_rate rows),
       d_time_to_fill_days = agg_mean (map (\<lambda>r. f_of_int (time_to_fill_days r)) rows) \<rparr>)"

definition with_mom :: "monthly_agg \<Rightarrow> f64 \<times> f64 \<times> f64 \<Rightarrow> monthly_row" where
  "with_mom a c = (case c of (h, n, t) \<Rightarrow>
     \<lparr> m_month_date = m_month_date a,
       m_headcount = m_headcount a,
       m_new_hires = m_new_hires a,
       m_terminations = m_terminations a,
       m_open_positions = m_open_positions a,
       m_avg_time_to_fill = m_avg_time_to_fill a,
       m_avg_offer_acceptance = m_avg_offer_acceptance a,
       m_avg_turnover_rate = m_avg_turnover_rate a,
       headcount_mom_pct = h,
       new_hires_mom_pct = n,
       turnover_mom_delta = t \<rparr>)"

definition monthly_aggs :: "(int list \<Rightarrow> nat list) \<Rightarrow> hr_record list \<Rightarrow> monthly_agg list" where
  "monthly_aggs srt_i df =
     sort_values int_isna srt_i m_month_date True (map month_agg (groupby month_date df))"

definition add_mom :: "monthly_agg list \<Rightarrow> monthly_row list" where
  "add_mom aggs =
     (let hc = map (\<lambda>x. f_mul x (Fin 100)) (pct_change (map (\<lambda>a. f_of_int (m_headcount a)) aggs));
          nh = map (\<lambda>x. f_mul x (Fin 100)) (pct_change (map (\<lambda>a. f_of_int (m_new_hires a)) aggs));
          td = diff (map m_avg_turnover_rate aggs)
      in map (\<lambda>(a, c). with_mom a c) (zip aggs (zip hc (zip nh td))))"

definition monthly_table :: "(int list \<Rightarrow> nat list) \<Rightarrow> hr_record list \<Rightarrow> monthly_row list" where
  "monthly_table srt_i df = add_mom (monthly_aggs srt_i df)"

definition dept_table :: "(int list \<Rightarrow> nat list) \<Rightarrow> hr_record list \<Rightarrow> int \<Rightarrow> dept_row list" where
  "dept_table srt_i df latest_month =
     sort_values int_isna srt_i d_headcount False
       (map dept_agg (groupby department (filter (\<lambda>r. month_date r = latest_month) df)))"

text \<open>
  The result of \<open>build_insights\<close>: the four frames it returns, and the two department
  rows whose name and value it writes into the summary sentence. The formatting of the
  sentence itself is not part of the model.
\<close>

record insights =
  monthly :: "monthly_row list"
  dept_latest :: "dept_row list"
  latest :: monthly_row
  prior :: monthly_row
  top_turnover :: dept_row
  best_ttf :: dept_row

definition build_insights ::
  "(int list \<Rightarrow> nat list) \<Rightarrow> (f64 list \<Rightarrow> nat list) \<Rightarrow> hr_record list \<Rightarrow> error + insights" where
  "build_insights srt_i srt_f df =
     (let mt = monthly_table srt_i df in
      (case iloc mt (- 1) of Inl e \<Rightarrow> Inl e | Inr lat \<Rightarrow>
      (case iloc mt (- 2) of Inl e \<Rightarrow> Inl e | Inr pri \<Rightarrow>
      (let dl = dept_table srt_i df (m_month_date lat) in
      (case iloc (sort_values f64_isna srt_f d_turnover_rate False dl) 0 of
         Inl e \<Rightarrow> Inl e | Inr tt \<Rightarrow>
      (case iloc (sort_values f64_isna srt_f d_time_to_fill_days True dl) 0 of
         Inl e \<Rightarrow> Inl e | Inr bt \<Rightarrow>
      Inr \<lparr> monthly = mt, dept_latest = dl, latest = lat, prior = pri,
            top_turnover = tt, best_ttf = bt \<rparr>))))))"

text \<open>
  Two concrete sorting routines, used where a result is evaluated. \<open>stable_argsort\<close> is
  an insertion sort of the positions by key, which keeps positions with equal keys in
  their order. \<open>vector_argsort\<close> follows the vectorised quicksort that NumPy dispatches to
  for 64-bit keys on x86 processors with AVX2 or AVX-512: an array that fits one register
  is sorted by a bitonic network of compare-exchange steps on lanes that carry a key and
  its position. Lanes beyond the array are padded with a largest key, and a
  compare-exchange swaps two lanes only when the first key is strictly greater. Four
  lanes are modelled, with the steps on lanes 0-1 and 2-3, then 0-3 and 1-2, then 0-1 and
  2-3, which is what both register widths compute for at most four keys smaller than the
  padding. That library is not part of the repository. Longer arrays, which it sorts with
  wider networks and a partitioning step, fall back to the insertion sort here and occur
  in no example.
\<close>

fun insert_pos :: "('k \<Rightarrow> 'k \<Rightarrow> bool) \<Rightarrow> 'k list \<Rightarrow> nat \<Rightarrow> nat list \<Rightarrow> nat list" where
  "insert_pos prec ks i [] = [i]"
| "insert_pos prec ks i (j # js) =
     (if prec (ks ! i) (ks ! j) then i # j # js else j # insert_pos prec ks i js)"

definition insertion_argsort :: "('k \<Rightarrow> 'k \<Rightarrow> bool) \<Rightarrow> 'k list \<Rightarrow> nat list" where
  "insertion_argsort prec ks = foldr (insert_pos prec ks) [0..<length ks] []"

definition stable_argsort :: "('k \<Rightarrow> 'k \<Rightarrow> bool) \<Rightarrow> 'k list \<Rightarrow> nat list" where
  "stable_argsort le = insertion_argsort le"

definition lane_gt :: "('k \<Rightarrow> 'k \<Rightarrow> bool) \<Rightarrow> 'k list \<Rightarrow> nat \<Rightarrow> nat \<Rightarrow> bool" where
  "lane_gt le ks i j =
     (if i < length ks then j < length ks \<and> \<not> le (ks ! i) (ks ! j) else j < length ks)"

definition cmp_exchange :: "(nat \<Rightarrow> nat \<Rightarrow> bool) \<Rightarrow> nat \<times> nat \<Rightarrow> nat \<times> nat" where
  "cmp_exchange gt p = (if gt (fst p) (snd p) then (snd p, fst p) else p)"

definition network4 :: "('k \<Rightarrow> 'k \<Rightarrow> bool) \<Rightarrow> 'k list \<Rightarrow> nat list" where
  "network4 le ks =
     (let gt = lane_gt le ks;
          p = cmp_exchange gt (0, 1);
          q = cmp_exchange gt (2, 3);
          outer = cmp_exchange gt (fst p, snd q);
          inner = cmp_exchange gt (snd p, fst q);
          lo = cmp_exchange gt (fst outer, fst inner);
          hi = cmp_exchange gt (snd inner, snd outer)
      in take (length ks) [fst lo, snd lo, fst hi, snd hi])"

definition vector_argsort :: "('k \<Rightarrow> 'k \<Rightarrow> bool) \<Rightarrow> 'k list \<Rightarrow> nat list" where
  "vector_argsort le ks = (if length ks \<le> 4 then network4 le ks else insertion_argsort le ks)"


definition month_rows :: "hr_record list \<Rightarrow> int \<Rightarrow> hr_record list" where
  "month_rows df m = filter (\<lambda>r. month_date r = m) df"




text \<open>
  What \<open>(cur / 0 - 1) * 100\<close> comes to in binary64, by the sign of \<open>cur\<close>.
\<close>

definition pct_of_zero :: "int \<Rightarrow> f64" where
  "pct_of_zero cur = (if 0 < cur then PInf else if cur < 0 then NInf else NaN)"

section \<open>Example frames\<close>

definition hr :: "int \<Rightarrow> string \<Rightarrow> string \<Rightarrow> int \<Rightarrow> int \<Rightarrow> int \<Rightarrow> int \<Rightarrow> int \<Rightarrow> f64 \<Rightarrow> f64 \<Rightarrow> hr_record" where
  "hr md m d h n t p f a u =
     \<lparr> month = m, department = d, headcount = h, new_hires = n, terminations = t,
       open_positions = p, time_to_fill_days = f, offer_acceptance_rate = a,
       turnover_rate = u, month_date = md \<rparr>"

text \<open>
  The two-month, one-department input of the specification's end-to-end property; the
  month dates are the nanosecond timestamps of 2025-01-01 and 2025-02-01.
\<close>

definition eng_jan :: hr_record where
  "eng_jan = hr 1735689600000000000 ''2025-01'' ''Eng'' 100 5 2 3 30 (Fin 80) (Fin 2)"

definition eng_feb :: hr_record where
  "eng_feb = hr 1738368000000000000 ''2025-02'' ''Eng'' 110 8 3 4 28 (Fin 82) (Fin (5/2))"

definition two_months :: "hr_record list" where
  "two_months = [eng_jan, eng_feb]"

text \<open>A month with nobody on the payroll, followed by a month with staff.\<close>

definition empty_jan :: hr_record where
  "empty_jan = hr 1735689600000000000 ''2025-01'' ''Eng'' 0 0 0 3 30 (Fin 80) (Fin 0)"

definition zero_then_staff :: "hr_record list" where
  "zero_then_staff = [empty_jan, eng_feb]"

text \<open>
  Two departments that have, in the latest month, the same turnover rate and the same
  time to fill, and different head counts.
\<close>

definition ops_jan :: hr_record where
  "ops_jan = hr 1735689600000000000 ''2025-01'' ''Ops'' 48 2 1 1 30 (Fin 80) (Fin 2)"

definition ops_feb :: hr_record where
  "ops_feb = hr 1738368000000000000 ''2025-02'' ''Ops'' 50 2 1 1 30 (Fin 80) (Fin 2)"

definition sales_feb :: hr_record where
  "sales_feb = hr 1738368000000000000 ''2025-02'' ''Sales'' 40 2 1 1 30 (Fin 80) (Fin 2)"

definition tied_depts :: "hr_record list" where
  "tied_depts = [ops_jan, ops_feb, sales_feb]"

text \<open>The department table of \<open>tied_depts\<close> for its latest month.\<close>

definition tied_dl :: "dept_row list" where
  "tied_dl = [\<lparr> d_department = ''Ops'', d_headcount = 50, d_turnover_rate = Fin 2, d_time_to_fill_days = Fin 30 \<rparr>,
     \<lparr> d_department = ''Sales'', d_headcount = 40, d_turnover_rate = Fin 2, d_time_to_fill_days = Fin 30 \<rparr>]"

text \<open>
  Four departments in the latest month, with different head counts; the two with the
  smallest head counts have the highest turnover rate and the shortest time to fill.
\<close>

definition eng_feb4 :: hr_record where
  "eng_feb4 = hr 1738368000000000000 ''2025-02'' ''Eng'' 80 4 2 3 40 (Fin 80) (Fin 1)"

definition ops_feb4 :: hr_record where
  "ops_feb4 = hr 1738368000000000000 ''2025-02'' ''Ops'' 50 2 1 1 40 (Fin 80) (Fin 1)"

definition sales_feb4 :: hr_record where
  "sales_feb4 = hr 1738368000000000000 ''2025-02'' ''Sales'' 40 2 1 1 30 (Fin 80) (Fin 2)"

definition support_feb4 :: hr_record where
  "support_feb4 = hr 1738368000000000000 ''2025-02'' ''Support'' 30 1 1 1 30 (Fin 80) (Fin 2)"

definition four_depts :: "hr_record list" where
  "four_depts = [eng_jan, eng_feb4, ops_feb4, sales_feb4, support_feb4]"

definition four_dl :: "dept_row list" where
  "four_dl =
    [\<lparr> d_department = ''Eng'', d_headcount = 80, d_turnover_rate = Fin 1, d_time_to_fill_days = Fin 40 \<rparr>,
     \<lparr> d_department = ''Ops'', d_headcount = 50, d_turnover_rate = Fin 1, d_time_to_fill_days = Fin 40 \<rparr>,
     \<lparr> d_department = ''Sales'', d_headcount = 40, d_turnover_rate = Fin 2, d_time_to_fill_days = Fin 30 \<rparr>,
     \<lparr> d_department = ''Support'', d_headcount = 30, d_turnover_rate = Fin 2, d_time_to_fill_days = Fin 30 \<rparr>]"

section \<open>The report builder: loading and the entry point\<close>

text \<open>
  The file system as far as the script touches it: the regular files with their
  content, and the directories. A file holds a table that \<open>read_csv\<close> can parse, or
  something it cannot parse, or an artefact rendered from the insights (a chart, the
  slide deck, the summary text; the rendering itself is not modelled). Paths are
  relative to the repository root, which holds the script and therefore exists.
\<close>

datatype content = Csv "csv_row list" | Garbage | Rendered insights

record filesystem =
  files :: "string \<rightharpoonup> content"
  dirs :: "string set"

definition DATA_PATH :: string where
  "DATA_PATH = ''data/hr_metrics_monthly.csv''"

definition OUTPUT_DIR :: string where
  "OUTPUT_DIR = ''output''"

definition path_exists :: "filesystem \<Rightarrow> string \<Rightarrow> bool" where
  "path_exists fs p \<longleftrightarrow> p \<in> dom (files fs) \<or> p \<in> dirs fs"

text \<open>\<open>mkdir(parents=True, exist_ok=True)\<close>: only a regular file of that name is an error.\<close>

definition mkdir :: "filesystem \<Rightarrow> string \<Rightarrow> error + filesystem" where
  "mkdir fs p = (if p \<in> dom (files fs) then Inl FileExistsError
     else Inr (fs\<lparr>dirs := insert p (dirs fs)\<rparr>))"

definition read_csv :: "filesystem \<Rightarrow> string \<Rightarrow> error + csv_row list" where
  "read_csv fs p =
     (case files fs p of
        Some (Csv rows) \<Rightarrow> Inr rows
      | Some _ \<Rightarrow> Inl ParserError
      | None \<Rightarrow> if p \<in> dirs fs then Inl IsADirectoryError else Inl FileNotFoundError)"

text \<open>
  \<open>df["month_date"] = pd.to_datetime(df["month"] + "-01")\<close>. The date parser of pandas
  is a parameter: it gives the timestamp of a string, or nothing where it raises.
\<close>

fun add_month_date :: "(string \<Rightarrow> int option) \<Rightarrow> csv_row list \<Rightarrow> error + hr_record list" where
  "add_month_date to_datetime [] = Inr []"
| "add_month_date to_datetime (r # rs) =
     (case to_datetime (month r @ ''-01'') of
        None \<Rightarrow> Inl ValueError
      | Some t \<Rightarrow>
          (case add_month_date to_datetime rs of
             Inl e \<Rightarrow> Inl e
           | Inr hs \<Rightarrow>
               Inr (hr t (month r) (department r) (headcount r) (new_hires r) (terminations r)
                      (open_positions r) (time_to_fill_days r) (offer_acceptance_rate r)
                      (turnover_rate r) # hs)))"

definition load_data :: "(string \<Rightarrow> int option) \<Rightarrow> filesystem \<Rightarrow> string \<Rightarrow> error + hr_record list" where
  "load_data to_datetime fs path =
     (if \<not> path_exists fs path then Inl FileNotFoundError
      else (case read_csv fs path of
              Inl e \<Rightarrow> Inl e
            | Inr rows \<Rightarrow> add_month_date to_datetime rows))"

text \<open>
  The entry point of the report builder. It returns the exception that ended it, if
  any, and the file system it leaves. The five artefacts are written after
  \<open>build_insights\<close> has returned; failures of these writes are not modelled.
\<close>

definition write_outputs :: "filesystem \<Rightarrow> insights \<Rightarrow> filesystem" where
  "write_outputs fs res =
     fs\<lparr>files := (files fs)
        (OUTPUT_DIR @ ''/headcount_trend.png'' \<mapsto> Rendered res,
         OUTPUT_DIR @ ''/hiring_turnover_trend.png'' \<mapsto> Rendered res,
         OUTPUT_DIR @ ''/department_breakdown.png'' \<mapsto> Rendered res,
         OUTPUT_DIR @ ''/hr_metrics_executive_dashboard.pptx'' \<mapsto> Rendered res,
         OUTPUT_DIR @ ''/executive_summary.txt'' \<mapsto> Rendered res)\<rparr>"

definition report_main ::
  "(int list \<Rightarrow> nat list) \<Rightarrow> (f64 list \<Rightarrow> nat list) \<Rightarrow> (string \<Rightarrow> int option) \<Rightarrow>
   filesystem \<Rightarrow> error option \<times> filesystem" where
  "report_main srt_i srt_f to_datetime fs =
     (case mkdir fs OUTPUT_DIR of
        Inl e \<Rightarrow> (Some e, fs)
      | Inr fs1 \<Rightarrow>
          (case load_data to_datetime fs1 DATA_PATH of
             Inl e \<Rightarrow> (Some e, fs1)
           | Inr df \<Rightarrow>
               (case build_insights srt_i srt_f df of
                  Inl e \<Rightarrow> (Some e, fs1)
                | Inr res \<Rightarrow> (None, write_outputs fs1 res))))"

text \<open>A date parser that knows the two months of the examples, and a bare checkout.\<close>

definition example_to_datetime :: "string \<Rightarrow> int option" where
  "example_to_datetime s =
     (if s = ''2025-01-01'' then Some 1735689600000000000
      else if s = ''2025-02-01'' then Some 1738368000000000000 else None)"

definition bare_checkout :: filesystem where
  "bare_checkout = \<lparr> files = Map.empty, dirs = {''src''} \<rparr>"

definition with_data :: filesystem where
  "with_data = \<lparr> files = [DATA_PATH \<mapsto> Csv []], dirs = {''src'', ''data''} \<rparr>"

section \<open>The mock data generator\<close>

text \<open>
  NumPy's random generator is a parameter of the model: a state, the state that
  \<open>seed\<close> installs, and the two samplers, which return a sample and the next state.
  Nothing is assumed of the samples unless a statement says so.
\<close>

record 'g numpy_random =
  rng_seed :: "nat \<Rightarrow> 'g"
  rng_normal :: "f64 \<Rightarrow> f64 \<Rightarrow> 'g \<Rightarrow> f64 \<times> 'g"
  rng_uniform :: "f64 \<Rightarrow> f64 \<Rightarrow> 'g \<Rightarrow> f64 \<times> 'g"

text \<open>
  A decimal float literal is the binary64 value nearest to it. Python's \<open>max(a, b)\<close>
  and \<open>min(a, b)\<close> keep the first argument unless the second compares greater,
  respectively smaller. \<open>round(x)\<close> rounds a float half to even to an integer and
  raises on an infinity or a NaN; \<open>round(x, n)\<close> rounds the exact value of \<open>x\<close> half to
  even to \<open>n\<close> decimals and returns the nearest float.
\<close>

definition lit :: "rat \<Rightarrow> f64" where
  "lit q = round64 q"

definition py_max :: "f64 \<Rightarrow> f64 \<Rightarrow> f64" where
  "py_max a b = (if f_lt a b then b else a)"

definition py_min :: "f64 \<Rightarrow> f64 \<Rightarrow> f64" where
  "py_min a b = (if f_lt b a then b else a)"

definition bounded :: "f64 \<Rightarrow> f64 \<Rightarrow> f64 \<Rightarrow> f64" where
  "bounded val low high = py_max low (py_min high val)"

fun py_round :: "f64 \<Rightarrow> error + int" where
  "py_round (Fin q) = Inr (rne q)"
| "py_round PInf = Inl OverflowError"
| "py_round NInf = Inl OverflowError"
| "py_round NaN = Inl ValueError"

fun py_round_nd :: "f64 \<Rightarrow> nat \<Rightarrow> f64" where
  "py_round_nd (Fin q) n = round64 (of_int (rne (q * 10 ^ n)) / 10 ^ n)"
| "py_round_nd x n = x"

text \<open>
  \<open>rnd n q\<close> is the value that \<open>round(x, n)\<close> returns for a float of value \<open>q\<close> when the
  result does not overflow.
\<close>

definition rnd :: "nat \<Rightarrow> rat \<Rightarrow> rat" where
  "rnd n q = fl (of_int (rne (q * 10 ^ n)) / 10 ^ n)"

text \<open>
  \<open>pd.date_range(start, end, freq="MS")\<close> for two month starts: the months from the
  first to the last, as year and month number; \<open>strftime("%Y-%m")\<close> for a four-digit year.
\<close>

definition date_range_MS :: "nat \<times> nat \<Rightarrow> nat \<times> nat \<Rightarrow> (nat \<times> nat) list" where
  "date_range_MS start end =
     map (\<lambda>k. (k div 12, k mod 12 + 1))
       [fst start * 12 + (snd start - 1) ..< fst end * 12 + (snd end - 1) + 1]"

definition digit :: "nat \<Rightarrow> char" where
  "digit n = ''0123456789'' ! n"

definition strftime_Y_m :: "nat \<times> nat \<Rightarrow> string" where
  "strftime_Y_m ym = (case ym of (y, m) \<Rightarrow>
     [digit (y div 1000 mod 10), digit (y div 100 mod 10), digit (y div 10 mod 10),
      digit (y mod 10), CHR ''-'', digit (m div 10), digit (m mod 10)])"

definition months :: "(nat \<times> nat) list" where
  "months = date_range_MS (2025, 2) (2026, 1)"

definition departments :: "string list" where
  "departments = [''Engineering'', ''Sales'', ''Operations'', ''HR'', ''Finance'', ''Customer Success'']"

definition baseline :: "(string \<times> int) list" where
  "baseline = [(''Engineering'', 95), (''Sales'', 62), (''Operations'', 54), (''HR'', 18),
     (''Finance'', 21), (''Customer Success'', 37)]"

definition trends :: "(string \<times> f64) list" where
  "trends = [(''Engineering'', lit (16/10)), (''Sales'', lit 1), (''Operations'', lit (7/10)),
     (''HR'', lit (2/10)), (''Finance'', lit (15/100)), (''Customer Success'', lit (8/10))]"

definition turnover_base :: "(string \<times> f64) list" where
  "turnover_base = [(''Engineering'', lit (11/1000)), (''Sales'', lit (19/1000)),
     (''Operations'', lit (15/1000)), (''HR'', lit (10/1000)), (''Finance'', lit (9/1000)),
     (''Customer Success'', lit (17/1000))]"

definition ttf_base :: "(string \<times> int) list" where
  "ttf_base = [(''Engineering'', 47), (''Sales'', 34), (''Operations'', 31), (''HR'', 29),
     (''Finance'', 36), (''Customer Success'', 26)]"

definition offer_base :: "(string \<times> f64) list" where
  "offer_base = [(''Engineering'', lit (82/100)), (''Sales'', lit (79/100)),
     (''Operations'', lit (84/100)), (''HR'', lit (86/100)), (''Finance'', lit (81/100)),
     (''Customer Success'', lit (83/100))]"

text \<open>
  The five dictionary lookups of one loop body; a missing key raises \<open>KeyError\<close>. The
  dictionaries have the same keys, so a department missing from one is missing from
  the first, which the body reads before it draws a sample.
\<close>

definition dept_constants :: "string \<Rightarrow> error + (int \<times> f64 \<times> f64 \<times> int \<times> f64)" where
  "dept_constants dept =
     (case (map_of baseline dept, map_of trends dept, map_of turnover_base dept,
            map_of ttf_base dept, map_of offer_base dept) of
        (Some b, Some t, Some tb, Some tf, Some ob) \<Rightarrow> Inr (b, t, tb, tf, ob)
      | _ \<Rightarrow> Inl KeyError)"

text \<open>
  The body of the inner loop: the eight samples are drawn in the order of the source,
  and each \<open>int(round(...))\<close> may raise. \<open>mon\<close> is the month as year and month number.
\<close>

definition gen_row ::
  "'g numpy_random \<Rightarrow> nat \<Rightarrow> nat \<times> nat \<Rightarrow> string \<Rightarrow> 'g \<Rightarrow> error + (csv_row \<times> 'g)" where
  "gen_row lib month_idx mon dept g =
     (case dept_constants dept of Inl e \<Rightarrow> Inl e | Inr (b, t, tb, tf, ob) \<Rightarrow>
     (let seasonal_hiring_boost = (if snd mon \<in> {3, 4, 9, 10} then lit (12/10) else lit (8/10));
          (z1, g1) = rng_normal lib (Fin 0) (lit (12/10)) g;
          base_hc = f_add (f_add (f_of_int b) (f_mul t (f_of_int (int month_idx)))) z1
      in (case py_round (py_max (Fin 8) base_hc) of Inl e \<Rightarrow> Inl e | Inr hc \<Rightarrow>
     (let hire_rate = f_mul (lit (35/1000)) seasonal_hiring_boost;
          (z2, g2) = rng_normal lib (Fin 0) (lit 1) g1
      in (case py_round (py_max (Fin 0) (f_add (f_mul (f_of_int hc) hire_rate) z2)) of
            Inl e \<Rightarrow> Inl e | Inr nh \<Rightarrow>
     (let (z3, g3) = rng_normal lib (Fin 0) (lit (35/10000)) g2;
          tr = bounded
                 (f_add (f_add tb z3) (if snd mon \<in> {7, 8} then lit (2/1000) else Fin 0))
                 (lit (4/1000)) (lit (5/100));
          (z4, g4) = rng_normal lib (Fin 0) (lit (6/10)) g3
      in (case py_round (py_max (Fin 0) (f_add (f_mul (f_of_int hc) tr) z4)) of
            Inl e \<Rightarrow> Inl e | Inr term \<Rightarrow>
     (let (u5, g5) = rng_uniform lib (lit (11/10)) (lit (22/10)) g4;
          (z6, g6) = rng_normal lib (Fin 0) (lit (12/10)) g5
      in (case py_round (py_max (Fin 0) (f_add (f_mul (f_of_int nh) u5) z6)) of
            Inl e \<Rightarrow> Inl e | Inr op \<Rightarrow>
     (let (z7, g7) = rng_normal lib (Fin 0) (lit 4) g6
      in (case py_round (py_max (Fin 15)
                (f_sub (f_add (f_of_int tf) z7) (if snd mon \<in> {10, 11} then Fin 1 else Fin 0))) of
            Inl e \<Rightarrow> Inl e | Inr ttf \<Rightarrow>
     (let (z8, g8) = rng_normal lib (Fin 0) (lit (3/100)) g7;
          oar = bounded
                  (f_sub (f_add ob z8) (if snd mon \<in> {6, 7} then lit (15/1000) else Fin 0))
                  (lit (62/100)) (lit (95/100))
      in Inr (\<lparr> month = strftime_Y_m mon, department = dept, headcount = hc, new_hires = nh,
                 terminations = term, open_positions = op, time_to_fill_days = ttf,
                 offer_acceptance_rate = py_round_nd (f_mul oar (Fin 100)) 1,
                 turnover_rate = py_round_nd (f_mul tr (Fin 100)) 2 \<rparr>, g8)))))))))))))"

text \<open>
  The two nested loops visit the months in order and, within a month, the departments
  in order; \<open>jobs\<close> is that sequence of visits, and \<open>gen_rows\<close> runs the body over it,
  threading the generator state and stopping at the first exception.
\<close>

definition jobs :: "(nat \<times> (nat \<times> nat) \<times> string) list" where
  "jobs = concat (map (\<lambda>(i, mon). map (\<lambda>dept. (i, mon, dept)) departments) (enumerate 0 months))"

fun gen_rows ::
  "'g numpy_random \<Rightarrow> (nat \<times> (nat \<times> nat) \<times> string) list \<Rightarrow> 'g \<Rightarrow> error + csv_row list" where
  "gen_rows lib [] g = Inr []"
| "gen_rows lib ((i, mon, dept) # js) g =
     (case gen_row lib i mon dept g of
        Inl e \<Rightarrow> Inl e
      | Inr (row, g') \<Rightarrow>
          (case gen_rows lib js g' of Inl e \<Rightarrow> Inl e | Inr rows \<Rightarrow> Inr (row # rows)))"

text \<open>
  The entry point: it seeds the process-wide generator with 42, whatever state it was
  in, builds the rows, creates the directory \<open>data\<close> if need be and writes the table to
  the path the report builder reads. \<open>generated_columns\<close> are the keys of the row
  dictionary in the order of the source, which is the header that \<open>to_csv\<close> writes.
\<close>

definition generated_columns :: "string list" where
  "generated_columns = [''month'', ''department'', ''headcount'', ''new_hires'', ''terminations'',
     ''open_positions'', ''time_to_fill_days'', ''offer_acceptance_rate'', ''turnover_rate'']"

definition generate_main :: "'g numpy_random \<Rightarrow> 'g \<Rightarrow> filesystem \<Rightarrow> error option \<times> filesystem" where
  "generate_main lib g_before fs =
     (case gen_rows lib jobs (rng_seed lib 42) of
        Inl e \<Rightarrow> (Some e, fs)
      | Inr rows \<Rightarrow>
          (case mkdir fs ''data'' of
             Inl e \<Rightarrow> (Some e, fs)
           | Inr fs1 \<Rightarrow> (None, fs1\<lparr>files := (files fs1)(DATA_PATH \<mapsto> Csv rows)\<rparr>)))"

text \<open>
  Modelled from the spec: the columns of the input file that the loader expects, in the
  order of section 6 of the specification; the source of the loader reads its columns by
  name and fixes no order. \<open>columns_read\<close> are the column names that occur in the source of
  the report builder.
\<close>

definition loader_columns :: "string list" where
  "loader_columns = [''month'', ''department'', ''headcount'', ''new_hires'', ''terminations'',
     ''open_positions'', ''time_to_fill_days'', ''offer_acceptance_rate'', ''turnover_rate'']"

definition columns_read :: "string list" where
  "columns_read = [''month'', ''headcount'', ''new_hires'', ''terminations'', ''open_positions'',
     ''time_to_fill_days'', ''offer_acceptance_rate'', ''turnover_rate'', ''department'']"

text \<open>
  What the properties ask of the samplers where they ask anything: every sample is a
  finite number of magnitude at most \<open>2 ^ 64\<close>. A sampler without noise, whose normal
  samples are 0 and whose uniform samples are 1.5, serves as an example.
\<close>

definition bounded_samples :: "'g numpy_random \<Rightarrow> bool" where
  "bounded_samples lib \<longleftrightarrow>
     (\<forall>loc scale g. \<exists>z. fst (rng_normal lib loc scale g) = Fin z \<and> \<bar>z\<bar> \<le> 2 ^ 64)
   \<and> (\<forall>lo hi g. \<exists>z. fst (rng_uniform lib lo hi g) = Fin z \<and> \<bar>z\<bar> \<le> 2 ^ 64)"

text \<open>
  \<open>fin_le k x\<close>: the float \<open>x\<close> is finite and of magnitude at most \<open>2 ^ k\<close>.
  \<open>row_in_range\<close>: the ranges that the generator keeps its columns in.
\<close>

definition fin_le :: "nat \<Rightarrow> f64 \<Rightarrow> bool" where
  "fin_le k x \<longleftrightarrow> (\<exists>q. x = Fin q \<and> \<bar>q\<bar> \<le> 2 ^ k)"

definition row_in_range :: "csv_row \<Rightarrow> bool" where
  "row_in_range row \<longleftrightarrow>
     8 \<le> headcount row \<and> 0 \<le> new_hires row \<and> 0 \<le> terminations row
   \<and> 0 \<le> open_positions row \<and> 15 \<le> time_to_fill_days row
   \<and> (\<exists>x. offer_acceptance_rate row = Fin x \<and> 62 \<le> x \<and> x \<le> 95)
   \<and> (\<exists>x. turnover_rate row = Fin x \<and> 2 / 5 \<le> x \<and> x \<le> 5)"

definition quiet_random :: "nat numpy_random" where
  "quiet_random = \<lparr> rng_seed = (\<lambda>s. s),
     rng_normal = (\<lambda>loc scale g. (Fin 0, Suc g)),
     rng_uniform = (\<lambda>lo hi g. (Fin (3/2), Suc g)) \<rparr>"

section \<open>Sorting routines and frame lengths\<close>

lemma mset_insert_pos: "mset (insert_pos prec ks i js) = add_mset i (mset js)"
  by (induction js) auto

lemma mset_foldr_insert_pos: "mset (foldr (insert_pos prec ks) is []) = mset is"
  by (induction "is") (auto simp: mset_insert_pos)

lemma set_insert_pos: "set (insert_pos prec ks i js) = insert i (set js)"
  by (induction js) auto

lemma sorted_insert_pos:
  assumes tr: "\<And>a b c. le a b \<Longrightarrow> le b c \<Longrightarrow> le a c"
    and b1: "\<And>j. j \<in> set js \<Longrightarrow> prec (ks ! i) (ks ! j) \<Longrightarrow> le (ks ! i) (ks ! j)"
    and b2: "\<And>j. j \<in> set js \<Longrightarrow> \<not> prec (ks ! i) (ks ! j) \<Longrightarrow> le (ks ! j) (ks ! i)"
    and s: "sorted_wrt le (map (\<lambda>j. ks ! j) js)"
  shows "sorted_wrt le (map (\<lambda>j. ks ! j) (insert_pos prec ks i js))"
  using b1 b2 s
proof (induction js)
  case Nil
  then show ?case by simp
next
  case (Cons j js)
  show ?case
  proof (cases "prec (ks ! i) (ks ! j)")
    case True
    then have "le (ks ! i) (ks ! j)" using Cons.prems(1) by simp
    with Cons.prems(3) True show ?thesis
      by (auto intro: tr)
  next
    case False
    then have ji: "le (ks ! j) (ks ! i)" using Cons.prems(2) by simp
    have "sorted_wrt le (map (\<lambda>j. ks ! j) (insert_pos prec ks i js))"
      using Cons.IH Cons.prems by simp
    with False ji Cons.prems(3) show ?thesis
      by (auto simp: set_insert_pos)
  qed
qed

lemma insertion_argsort_valid:
  assumes tr: "\<And>a b c. le a b \<Longrightarrow> le b c \<Longrightarrow> le a c"
    and b1: "\<And>a b. \<not> isna a \<Longrightarrow> \<not> isna b \<Longrightarrow> prec a b \<Longrightarrow> le a b"
    and b2: "\<And>a b. \<not> isna a \<Longrightarrow> \<not> isna b \<Longrightarrow> \<not> prec a b \<Longrightarrow> le b a"
  shows "valid_argsort isna le (insertion_argsort prec)"
  unfolding valid_argsort_def
proof (intro allI impI conjI)
  fix ks :: "'a list"
  assume na: "\<forall>k\<in>set ks. \<not> isna k"
  show "mset (insertion_argsort prec ks) = mset [0..<length ks]"
    by (simp add: insertion_argsort_def mset_foldr_insert_pos)
  have "set is \<subseteq> {0..<length ks} \<Longrightarrow>
        sorted_wrt le (map (\<lambda>j. ks ! j) (foldr (insert_pos prec ks) is []))" for "is"
  proof (induction "is")
    case Nil
    then show ?case by simp
  next
    case (Cons i "is")
    have in_range: "set (foldr (insert_pos prec ks) is []) \<subseteq> {0..<length ks}"
      using Cons.prems mset_foldr_insert_pos[of prec ks "is"]
      by (metis set_mset_mset set_subset_Cons subset_trans)
    have "sorted_wrt le (map (\<lambda>j. ks ! j) (insert_pos prec ks i (foldr (insert_pos prec ks) is [])))"
    proof (rule sorted_insert_pos[where le = le])
      show "\<And>a b c. le a b \<Longrightarrow> le b c \<Longrightarrow> le a c" by (rule tr)
      show "sorted_wrt le (map (\<lambda>j. ks ! j) (foldr (insert_pos prec ks) is []))"
        using Cons by simp
    next
      fix j assume "j \<in> set (foldr (insert_pos prec ks) is [])"
        and nb: "\<not> prec (ks ! i) (ks ! j)"
      then have "j < length ks" using in_range by auto
      moreover have "i < length ks" using Cons.prems by simp
      ultimately show "le (ks ! j) (ks ! i)" using na nb b2 by simp
    next
      fix j assume "j \<in> set (foldr (insert_pos prec ks) is [])"
        and nb: "prec (ks ! i) (ks ! j)"
      then have "j < length ks" using in_range by auto
      moreover have "i < length ks" using Cons.prems by simp
      ultimately show "le (ks ! i) (ks ! j)" using na nb b1 by simp
    qed
    then show ?case by simp
  qed
  then show "sorted_wrt le (map (\<lambda>i. ks ! i) (insertion_argsort prec ks))"
    by (simp add: insertion_argsort_def)
qed

lemma f_le_trans: "f_le a b \<Longrightarrow> f_le b c \<Longrightarrow> f_le a c"
  by (cases a; cases b; cases c) auto

lemma f_le_total: "a \<noteq> NaN \<Longrightarrow> b \<noteq> NaN \<Longrightarrow> f_le a b \<or> f_le b a"
  by (cases a; cases b) auto

lemma stable_int_valid: "valid_int_argsort (stable_argsort (\<le>))"
  unfolding stable_argsort_def by (rule insertion_argsort_valid) auto

lemma stable_f64_valid: "valid_f64_argsort (stable_argsort f_le)"
  unfolding stable_argsort_def
  by (rule insertion_argsort_valid) (auto intro: f_le_trans simp: f64_isna_def dest: f_le_total)

lemma cmp_exchange_props:
  assumes tot: "\<And>x y. \<not> gt x y \<or> \<not> gt y x"
  shows "\<not> gt (fst (cmp_exchange gt (x, y))) (snd (cmp_exchange gt (x, y)))"
    and "mset [fst (cmp_exchange gt (x, y)), snd (cmp_exchange gt (x, y))] = mset [x, y]"
    and "\<not> gt (fst (cmp_exchange gt (x, y))) x" and "\<not> gt (fst (cmp_exchange gt (x, y))) y"
    and "\<not> gt x (snd (cmp_exchange gt (x, y)))" and "\<not> gt y (snd (cmp_exchange gt (x, y)))"
  using tot[of x y] tot[of x x] tot[of y y] by (auto simp: cmp_exchange_def)

lemma bitonic4_sorts:
  fixes gt :: "nat \<Rightarrow> nat \<Rightarrow> bool" and a b c d :: nat
  assumes tot: "\<And>x y. \<not> gt x y \<or> \<not> gt y x"
    and tr: "\<And>x y z. \<not> gt x y \<Longrightarrow> \<not> gt y z \<Longrightarrow> \<not> gt x z"
  defines "p \<equiv> cmp_exchange gt (a, b)" and "q \<equiv> cmp_exchange gt (c, d)"
  defines "outer \<equiv> cmp_exchange gt (fst p, snd q)" and "inner \<equiv> cmp_exchange gt (snd p, fst q)"
  defines "lo \<equiv> cmp_exchange gt (fst outer, fst inner)"
    and "hi \<equiv> cmp_exchange gt (snd inner, snd outer)"
  shows "sorted_wrt (\<lambda>x y. \<not> gt x y) [fst lo, snd lo, fst hi, snd hi]"
    and "mset [fst lo, snd lo, fst hi, snd hi] = mset [a, b, c, d]"
proof -
  note ce = cmp_exchange_props[of gt, OF tot]
  have pq: "\<not> gt (fst p) (snd p)" "\<not> gt (fst q) (snd q)"
    unfolding p_def q_def by (rule ce(1))+
  have o1: "\<not> gt (fst outer) (fst p)" and o2: "\<not> gt (fst outer) (snd q)"
    and o3: "\<not> gt (fst p) (snd outer)" and o4: "\<not> gt (snd q) (snd outer)"
    unfolding outer_def by (rule ce(3) ce(4) ce(5) ce(6))+
  have i1: "\<not> gt (fst inner) (snd p)" and i2: "\<not> gt (fst inner) (fst q)"
    and i3: "\<not> gt (snd p) (snd inner)" and i4: "\<not> gt (fst q) (snd inner)"
    unfolding inner_def by (rule ce(3) ce(4) ce(5) ce(6))+
  have x1: "\<not> gt (fst outer) (snd inner)" by (rule tr[OF tr[OF o1 pq(1)] i3])
  have x2: "\<not> gt (fst inner) (snd outer)" by (rule tr[OF tr[OF i2 pq(2)] o4])
  have x3: "\<not> gt (fst outer) (snd outer)" unfolding outer_def by (rule ce(1))
  have x4: "\<not> gt (fst inner) (snd inner)" unfolding inner_def by (rule ce(1))
  have l0: "\<not> gt (fst lo) (snd lo)" unfolding lo_def by (rule ce(1))
  have h0: "\<not> gt (fst hi) (snd hi)" unfolding hi_def by (rule ce(1))
  have lo_in: "fst lo = fst outer \<or> fst lo = fst inner" "snd lo = fst outer \<or> snd lo = fst inner"
    unfolding lo_def by (auto simp: cmp_exchange_def)
  have hi_in: "fst hi = snd outer \<or> fst hi = snd inner" "snd hi = snd outer \<or> snd hi = snd inner"
    unfolding hi_def by (auto simp: cmp_exchange_def)
  have cross: "\<not> gt u v"
    if "u = fst outer \<or> u = fst inner" "v = snd outer \<or> v = snd inner" for u v
    using that x1 x2 x3 x4 by blast
  show "sorted_wrt (\<lambda>x y. \<not> gt x y) [fst lo, snd lo, fst hi, snd hi]"
    using l0 h0 cross[OF lo_in(1) hi_in(1)] cross[OF lo_in(1) hi_in(2)]
      cross[OF lo_in(2) hi_in(1)] cross[OF lo_in(2) hi_in(2)] by simp
  have "mset [fst lo, snd lo] = mset [fst outer, fst inner]" unfolding lo_def by (rule ce(2))
  moreover have "mset [fst hi, snd hi] = mset [snd inner, snd outer]" unfolding hi_def by (rule ce(2))
  moreover have "mset [fst outer, snd outer] = mset [fst p, snd q]" unfolding outer_def by (rule ce(2))
  moreover have "mset [fst inner, snd inner] = mset [snd p, fst q]" unfolding inner_def by (rule ce(2))
  moreover have "mset [fst p, snd p] = mset [a, b]" unfolding p_def by (rule ce(2))
  moreover have "mset [fst q, snd q] = mset [c, d]" unfolding q_def by (rule ce(2))
  ultimately have "mset [fst lo, snd lo] + mset [fst hi, snd hi] = mset [a, b] + mset [c, d]"
    by (smt (verit) add.commute add_mset_commute mset.simps union_mset_add_mset_left union_mset_add_mset_right add.left_neutral)
  then show "mset [fst lo, snd lo, fst hi, snd hi] = mset [a, b, c, d]"
    by (simp add: add_mset_commute)
qed

lemma filter_less_upt: "n \<le> m \<Longrightarrow> filter (\<lambda>i. i < n) [0..<m] = [0..<n]"
  by (induction m) (auto simp: le_Suc_eq)

lemma sorted_split:
  assumes "sorted_wrt r ps" and "\<And>i j. i \<in> set ps \<Longrightarrow> j \<in> set ps \<Longrightarrow> \<not> P i \<Longrightarrow> P j \<Longrightarrow> \<not> r i j"
  shows "ps = filter P ps @ filter (\<lambda>i. \<not> P i) ps"
  using assms
proof (induction ps)
  case Nil
  then show ?case by simp
next
  case (Cons p ps)
  have ih: "ps = filter P ps @ filter (\<lambda>i. \<not> P i) ps"
    using Cons.prems by (intro Cons.IH) auto
  show ?case
  proof (cases "P p")
    case True
    then show ?thesis using ih by simp
  next
    case False
    have "\<not> P j" if "j \<in> set ps" for j
      using Cons.prems(1) Cons.prems(2)[of p j] that False by auto
    then have "filter P ps = []" by (simp add: filter_empty_conv)
    then show ?thesis using False ih by simp
  qed
qed

lemma network4_valid:
  assumes tr: "\<And>a b c. le a b \<Longrightarrow> le b c \<Longrightarrow> le a c"
    and tot: "\<And>a b. a \<in> set ks \<Longrightarrow> b \<in> set ks \<Longrightarrow> le a b \<or> le b a"
    and len: "length ks \<le> 4"
  shows "mset (network4 le ks) = mset [0..<length ks]"
    and "sorted_wrt le (map (\<lambda>i. ks ! i) (network4 le ks))"
proof -
  let ?n = "length ks"
  let ?gt = "lane_gt le ks"
  define p where "p = cmp_exchange ?gt (0, 1)"
  define q where "q = cmp_exchange ?gt (2, 3)"
  define outer where "outer = cmp_exchange ?gt (fst p, snd q)"
  define inner where "inner = cmp_exchange ?gt (snd p, fst q)"
  define lo where "lo = cmp_exchange ?gt (fst outer, fst inner)"
  define hi where "hi = cmp_exchange ?gt (snd inner, snd outer)"
  define ps where "ps = [fst lo, snd lo, fst hi, snd hi]"
  have net: "network4 le ks = take ?n ps"
    by (simp add: network4_def Let_def ps_def lo_def hi_def outer_def inner_def p_def q_def)
  have gtot: "\<not> ?gt x y \<or> \<not> ?gt y x" for x y
    using tot[of "ks ! x" "ks ! y"] by (auto simp: lane_gt_def)
  have gtr: "\<not> ?gt x z" if "\<not> ?gt x y" "\<not> ?gt y z" for x y z
    using that tr[of "ks ! x" "ks ! y" "ks ! z"] by (auto simp: lane_gt_def split: if_splits)
  have srt: "sorted_wrt (\<lambda>x y. \<not> ?gt x y) ps"
    unfolding ps_def lo_def hi_def outer_def inner_def p_def q_def
    by (rule bitonic4_sorts(1)[OF gtot gtr])
  have ms: "mset ps = mset [0, 1, 2, 3]"
    unfolding ps_def lo_def hi_def outer_def inner_def p_def q_def
    by (rule bitonic4_sorts(2)[OF gtot gtr])
  have u: "[0, 1, 2, 3] = [0..<4]" by (simp add: upt_rec_numeral eval_nat_numeral)
  have split: "ps = filter (\<lambda>i. i < ?n) ps @ filter (\<lambda>i. \<not> i < ?n) ps"
    using srt by (rule sorted_split) (simp add: lane_gt_def)
  have "mset (filter (\<lambda>i. i < ?n) ps) = mset (filter (\<lambda>i. i < ?n) [0..<4])"
    using ms by (simp only: u mset_filter)
  then have mf: "mset (filter (\<lambda>i. i < ?n) ps) = mset [0..<?n]"
    using len by (simp only: filter_less_upt)
  then have "length (filter (\<lambda>i. i < ?n) ps) = ?n"
    by (metis length_upt mset_eq_length minus_nat.diff_0)
  then have tk: "take ?n ps = filter (\<lambda>i. i < ?n) ps"
    using split by (metis append_eq_conv_conj)
  show "mset (network4 le ks) = mset [0..<?n]" by (simp only: net tk mf)
  have "sorted_wrt (\<lambda>x y. \<not> ?gt x y) (filter (\<lambda>i. i < ?n) ps)"
    using srt by (rule sorted_wrt_filter)
  then have "sorted_wrt (\<lambda>x y. le (ks ! x) (ks ! y)) (filter (\<lambda>i. i < ?n) ps)"
    by (rule sorted_wrt_mono_rel[rotated]) (auto simp: lane_gt_def)
  then show "sorted_wrt le (map (\<lambda>i. ks ! i) (network4 le ks))"
    by (simp only: net tk sorted_wrt_map)
qed

lemma vector_argsort_valid:
  assumes tr: "\<And>a b c. le a b \<Longrightarrow> le b c \<Longrightarrow> le a c"
    and tot: "\<And>a b. \<not> isna a \<Longrightarrow> \<not> isna b \<Longrightarrow> le a b \<or> le b a"
  shows "valid_argsort isna le (vector_argsort le)"
  unfolding valid_argsort_def
proof (intro allI impI)
  fix ks :: "'a list"
  assume na: "\<forall>k\<in>set ks. \<not> isna k"
  show "mset (vector_argsort le ks) = mset [0..<length ks]
      \<and> sorted_wrt le (map (\<lambda>i. ks ! i) (vector_argsort le ks))"
  proof (cases "length ks \<le> 4")
    case True
    have t: "le a b \<or> le b a" if "a \<in> set ks" "b \<in> set ks" for a b
      using that na tot by blast
    show ?thesis
      using network4_valid[of le ks, OF tr t True] True by (simp add: vector_argsort_def)
  next
    case False
    have "valid_argsort isna le (insertion_argsort le)"
      by (rule insertion_argsort_valid[OF tr]) (use tot in blast)+
    then show ?thesis using na False by (simp add: valid_argsort_def vector_argsort_def)
  qed
qed

lemma vector_int_valid: "valid_int_argsort (vector_argsort (\<le>))"
  by (rule vector_argsort_valid) auto

lemma vector_f64_valid: "valid_f64_argsort (vector_argsort f_le)"
  by (rule vector_argsort_valid) (auto intro: f_le_trans simp: f64_isna_def dest: f_le_total)

lemma vector_argsort_examples:
  "vector_argsort (\<le>) [40, 40, 30, 30 :: int] = [3, 2, 1, 0]"
  "vector_argsort (\<le>) [2, 2 :: int] = [0, 1]"
  "vector_argsort (\<le>) [2, 1, 2 :: int] = [1, 0, 2]"
  by code_simp+

lemma length_argsort:
  "valid_argsort isna le srt \<Longrightarrow> \<forall>k\<in>set ks. \<not> isna k \<Longrightarrow> length (srt ks) = length ks"
  unfolding valid_argsort_def
  by (metis length_upt mset_eq_length minus_nat.diff_0)

lemma length_nargsort:
  assumes "valid_argsort isna le srt"
  shows "length (nargsort isna srt items asc) = length items"
proof -
  let ?idx = "[0..<length items]"
  let ?nn = "filter (\<lambda>i. \<not> isna (items ! i)) ?idx"
  have a: "\<forall>k \<in> set (map (\<lambda>i. items ! i) ?nn). \<not> isna k" by auto
  have b: "\<forall>k \<in> set (rev (map (\<lambda>i. items ! i) ?nn)). \<not> isna k" by auto
  have "length ?nn + length (filter (\<lambda>i. isna (items ! i)) ?idx) = length ?idx"
    using sum_length_filter_compl[of "\<lambda>i. isna (items ! i)" ?idx] by simp
  then show ?thesis
    using length_argsort[OF assms a] length_argsort[OF assms b]
    by (simp add: nargsort_def Let_def)
qed

lemma length_sort_values:
  "valid_argsort isna le srt \<Longrightarrow> length (sort_values isna srt col asc frame) = length frame"
  by (simp add: sort_values_def length_nargsort)

lemma length_shift: "length (shift xs) = length xs"
  by (simp add: shift_def)

lemma length_monthly_table:
  "valid_int_argsort srt_i \<Longrightarrow> length (monthly_table srt_i df) = card (month_date ` set df)"
  by (simp add: monthly_table_def add_mom_def monthly_aggs_def Let_def pct_change_def diff_def
      length_shift length_sort_values groupby_def length_remdups_card_conv)

lemma iloc_prior_short: "length frame < 2 \<Longrightarrow> iloc frame (- 2) = Inl IndexError"
  by (simp add: iloc_def)

section \<open>Fewer than two months\<close>

text \<open>
  Claim C6. When the input holds fewer than two distinct months, the monthly table has
  fewer than two rows, the positional access \<open>monthly.iloc[-2]\<close> to the prior row is out of
  range, and \<open>build_insights\<close> ends with an \<open>IndexError\<close> instead of a result. This holds
  whatever sorting routine NumPy supplies.
\<close>

theorem build_insights_too_few_months:
  assumes "valid_int_argsort srt_i" and "card (month_date ` set df) < 2"
  shows "iloc (monthly_table srt_i df) (- 2) = Inl IndexError
       \<and> build_insights srt_i srt_f df = Inl IndexError"
proof -
  have short: "length (monthly_table srt_i df) < 2"
    using assms by (simp add: length_monthly_table)
  then have pri: "iloc (monthly_table srt_i df) (- 2) = Inl IndexError"
    by (rule iloc_prior_short)
  have "build_insights srt_i srt_f df = Inl IndexError"
  proof (cases "iloc (monthly_table srt_i df) (- 1)")
    case (Inl e)
    then have "e = IndexError" by (auto simp: iloc_def split: if_splits)
    with Inl show ?thesis by (simp add: build_insights_def Let_def)
  next
    case (Inr lat)
    with pri show ?thesis by (simp add: build_insights_def Let_def)
  qed
  with pri show ?thesis by simp
qed

theorem build_insights_too_few_months_witness:
  "valid_int_argsort (stable_argsort (\<le>)) \<and> card (month_date ` set [eng_jan]) < 2
   \<and> iloc (monthly_table (stable_argsort (\<le>)) [eng_jan]) (- 2) = Inl IndexError
   \<and> build_insights (stable_argsort (\<le>)) (stable_argsort f_le) [eng_jan] = Inl IndexError"
proof -
  have c: "card (month_date ` set [eng_jan]) < 2" by simp
  show ?thesis
    using build_insights_too_few_months[OF stable_int_valid c, of "stable_argsort f_le"]
      stable_int_valid c by simp
qed

section \<open>The monthly aggregate table\<close>

lemma set_argsort:
  "valid_argsort isna le srt \<Longrightarrow> \<forall>k\<in>set ks. \<not> isna k \<Longrightarrow> set (srt ks) = {0..<length ks}"
  unfolding valid_argsort_def
  by (metis set_mset_mset set_upt)

lemma map_nth_argsort:
  assumes "valid_argsort isna le srt" and "\<forall>k\<in>set ks. \<not> isna k"
  shows "mset (map (\<lambda>i. ks ! i) (srt ks)) = mset ks"
proof -
  have "mset (map (\<lambda>i. ks ! i) (srt ks)) = image_mset (\<lambda>i. ks ! i) (mset (srt ks))" by simp
  also have "\<dots> = image_mset (\<lambda>i. ks ! i) (mset [0..<length ks])"
    using assms by (simp add: valid_argsort_def)
  also have "\<dots> = mset (map (\<lambda>i. ks ! i) [0..<length ks])" by simp
  also have "\<dots> = mset ks" by (simp add: map_nth)
  finally show ?thesis .
qed

lemma argsort_strictly_sorted:
  fixes ks :: "'k::linorder list"
  assumes v: "valid_argsort isna (\<le>) srt" and na: "\<forall>k\<in>set ks. \<not> isna k"
    and s: "sorted ks" and d: "distinct ks"
  shows "srt ks = [0..<length ks]"
proof -
  let ?p = "srt ks"
  have sp: "sorted (map (\<lambda>i. ks ! i) ?p)"
    using v na by (simp add: valid_argsort_def)
  have "mset (map (\<lambda>i. ks ! i) ?p) = mset ks"
    using v na by (rule map_nth_argsort)
  with sp s have "map (\<lambda>i. ks ! i) ?p = ks"
    by (metis properties_for_sort sort_key_id_if_sorted)
  then have eq: "map (\<lambda>i. ks ! i) ?p = map (\<lambda>i. ks ! i) [0..<length ks]"
    by (simp add: map_nth)
  have "inj_on (\<lambda>i. ks ! i) (set ?p \<union> set [0..<length ks])"
    using d set_argsort[OF v na] by (auto simp: inj_on_def nth_eq_iff_index_eq)
  with eq show ?thesis
    by (simp add: inj_on_map_eq_map)
qed

lemma nargsort_no_na:
  assumes "\<forall>k\<in>set items. \<not> isna k"
  shows "nargsort isna srt items True = map (\<lambda>j. [0..<length items] ! j) (srt items)"
proof -
  have f: "filter (\<lambda>i. \<not> isna (items ! i)) [0..<length items] = [0..<length items]"
    using assms by (auto simp: filter_id_conv)
  have g: "filter (\<lambda>i. isna (items ! i)) [0..<length items] = []"
    using assms by (auto simp: filter_empty_conv)
  show ?thesis
    by (simp add: nargsort_def Let_def f g map_nth)
qed

lemma map_nth_upt: "map (\<lambda>j. [0..<n] ! j) [0..<n] = [0..<n]"
  using map_nth[of "[0..<n]"] by simp

lemma sort_values_strictly_sorted:
  fixes col :: "'r \<Rightarrow> 'k::linorder"
  assumes v: "valid_argsort isna (\<le>) srt" and na: "\<forall>r\<in>set frame. \<not> isna (col r)"
    and s: "sorted (map col frame)" and d: "distinct (map col frame)"
  shows "sort_values isna srt col True frame = frame"
proof -
  have na': "\<forall>k\<in>set (map col frame). \<not> isna k" using na by simp
  have p: "srt (map col frame) = [0..<length frame]"
    using argsort_strictly_sorted[OF v na' s d] by simp
  have "nargsort isna srt (map col frame) True
      = map (\<lambda>j. [0..<length frame] ! j) (srt (map col frame))"
    using nargsort_no_na[OF na', of srt] by simp
  also have "\<dots> = [0..<length frame]"
    unfolding p by (rule map_nth_upt)
  finally show ?thesis
    by (simp add: sort_values_def map_nth)
qed

lemma month_agg_key: "m_month_date (month_agg (k, rows)) = k"
  by (simp add: month_agg_def)

lemma map_month_agg_keys:
  "map m_month_date (map month_agg (groupby month_date df)) = sort (remdups (map month_date df))"
  by (simp add: groupby_def month_agg_def comp_def)

lemma monthly_aggs_eq:
  assumes "valid_int_argsort srt_i"
  shows "monthly_aggs srt_i df = map month_agg (groupby month_date df)"
  unfolding monthly_aggs_def
proof (rule sort_values_strictly_sorted[OF assms])
  show "\<forall>r\<in>set (map month_agg (groupby month_date df)). \<not> int_isna (m_month_date r)"
    by (simp add: int_isna_def)
  show "sorted (map m_month_date (map month_agg (groupby month_date df)))"
    unfolding map_month_agg_keys by simp
  show "distinct (map m_month_date (map month_agg (groupby month_date df)))"
    unfolding map_month_agg_keys by simp
qed


lemma shift_nth: "i < length xs \<Longrightarrow> shift xs ! i = (if i = 0 then NaN else xs ! (i - 1))"
  by (cases i) (auto simp: shift_def nth_butlast)

lemma length_pct_change: "length (pct_change xs) = length xs"
  by (simp add: pct_change_def length_shift)

lemma length_diff: "length (diff xs) = length xs"
  by (simp add: diff_def length_shift)

lemma pct_change_nth:
  "i < length xs \<Longrightarrow> pct_change xs ! i = f_sub (f_div (xs ! i) (shift xs ! i)) (Fin 1)"
  by (simp add: pct_change_def length_shift)

lemma diff_nth: "i < length xs \<Longrightarrow> diff xs ! i = f_sub (xs ! i) (shift xs ! i)"
  by (simp add: diff_def length_shift)

lemma length_add_mom: "length (add_mom aggs) = length aggs"
  by (simp add: add_mom_def Let_def length_pct_change length_diff)

lemma add_mom_nth:
  assumes "i < length aggs"
  shows "add_mom aggs ! i = with_mom (aggs ! i)
     (f_mul (pct_change (map (\<lambda>a. f_of_int (m_headcount a)) aggs) ! i) (Fin 100),
      f_mul (pct_change (map (\<lambda>a. f_of_int (m_new_hires a)) aggs) ! i) (Fin 100),
      diff (map m_avg_turnover_rate aggs) ! i)"
  using assms by (simp add: add_mom_def Let_def length_pct_change length_diff)

lemma with_mom_sel:
  "m_month_date (with_mom a c) = m_month_date a"
  "m_headcount (with_mom a c) = m_headcount a"
  "m_new_hires (with_mom a c) = m_new_hires a"
  "m_terminations (with_mom a c) = m_terminations a"
  "m_open_positions (with_mom a c) = m_open_positions a"
  "m_avg_time_to_fill (with_mom a c) = m_avg_time_to_fill a"
  "m_avg_offer_acceptance (with_mom a c) = m_avg_offer_acceptance a"
  "m_avg_turnover_rate (with_mom a c) = m_avg_turnover_rate a"
  by (simp_all add: with_mom_def split: prod.splits)

lemma with_mom_mom:
  "headcount_mom_pct (with_mom a (h, n, t)) = h"
  "new_hires_mom_pct (with_mom a (h, n, t)) = n"
  "turnover_mom_delta (with_mom a (h, n, t)) = t"
  by (simp_all add: with_mom_def)

lemma map_month_date_add_mom: "map m_month_date (add_mom aggs) = map m_month_date aggs"
  by (rule nth_equalityI) (simp_all add: length_add_mom add_mom_nth with_mom_sel)


lemma monthly_months:
  assumes "valid_int_argsort srt_i"
  shows "map m_month_date (monthly_table srt_i df) = sort (remdups (map month_date df))"
  by (simp add: monthly_table_def map_month_date_add_mom monthly_aggs_eq[OF assms]
      del: map_map) (simp add: groupby_def month_agg_def comp_def)



lemma iloc_last: "frame \<noteq> [] \<Longrightarrow> iloc frame (- 1) = Inr (last frame)"
  by (cases frame rule: rev_cases) (auto simp: iloc_def nth_append)

lemma iloc_prior: "2 \<le> length frame \<Longrightarrow> iloc frame (- 2) = Inr (frame ! (length frame - 2))"
  by (auto simp: iloc_def nat_diff_distrib' intro!: arg_cong[where f = "nth frame"])

lemma iloc_first: "frame \<noteq> [] \<Longrightarrow> iloc frame 0 = Inr (hd frame)"
  by (cases frame) (auto simp: iloc_def)

lemma latest_month_in_frame:
  assumes v: "valid_int_argsort srt_i" and ne: "df \<noteq> []"
  shows "m_month_date (last (monthly_table srt_i df)) \<in> month_date ` set df"
proof -
  let ?mt = "monthly_table srt_i df"
  have keys: "map m_month_date ?mt = sort (remdups (map month_date df))"
    using v by (rule monthly_months)
  have nonempty: "?mt \<noteq> []"
    using keys ne by (metis length_0_conv length_map length_remdups_eq length_sort list.map_disc_iff remdups_eq_nil_iff)
  then have "m_month_date (last ?mt) = last (map m_month_date ?mt)"
    by (simp add: last_map)
  also have "\<dots> \<in> set (map m_month_date ?mt)"
    using nonempty by (intro last_in_set) simp
  finally show ?thesis
    unfolding keys by simp
qed

lemma length_dept_table:
  "valid_int_argsort srt_i \<Longrightarrow>
   length (dept_table srt_i df m) = card (department ` set (month_rows df m))"
  by (simp add: dept_table_def length_sort_values groupby_def length_remdups_card_conv month_rows_def)

lemma dept_table_nonempty:
  assumes "valid_int_argsort srt_i" and "m \<in> month_date ` set df"
  shows "dept_table srt_i df m \<noteq> []"
proof -
  from assms(2) have "month_rows df m \<noteq> []"
    by (auto simp: month_rows_def filter_empty_conv)
  then have "0 < card (department ` set (month_rows df m))"
    by (simp add: card_gt_0_iff)
  then show ?thesis
    using length_dept_table[OF assms(1), of df m] by auto
qed

lemma sort_values_nonempty:
  "valid_argsort isna le srt \<Longrightarrow> frame \<noteq> [] \<Longrightarrow> sort_values isna srt col asc frame \<noteq> []"
  using length_sort_values[of isna le srt col asc frame] by auto

lemma build_insights_result:
  assumes vi: "valid_int_argsort srt_i" and vf: "valid_f64_argsort srt_f"
    and two: "2 \<le> card (month_date ` set df)"
  shows "build_insights srt_i srt_f df =
     Inr \<lparr> monthly = monthly_table srt_i df,
           dept_latest = dept_table srt_i df (m_month_date (last (monthly_table srt_i df))),
           latest = last (monthly_table srt_i df),
           prior = monthly_table srt_i df ! (length (monthly_table srt_i df) - 2),
           top_turnover = hd (sort_values f64_isna srt_f d_turnover_rate False
             (dept_table srt_i df (m_month_date (last (monthly_table srt_i df))))),
           best_ttf = hd (sort_values f64_isna srt_f d_time_to_fill_days True
             (dept_table srt_i df (m_month_date (last (monthly_table srt_i df))))) \<rparr>"
proof -
  let ?mt = "monthly_table srt_i df"
  let ?dl = "dept_table srt_i df (m_month_date (last ?mt))"
  have len: "2 \<le> length ?mt"
    using two by (simp add: length_monthly_table[OF vi])
  then have ne: "?mt \<noteq> []" by auto
  have dfne: "df \<noteq> []" using two by auto
  have dl: "?dl \<noteq> []"
    using vi latest_month_in_frame[OF vi dfne] by (rule dept_table_nonempty)
  show ?thesis
    by (simp add: build_insights_def Let_def iloc_last[OF ne] iloc_prior[OF len]
        iloc_first[OF sort_values_nonempty[OF vf dl]])
qed


lemma month_agg_sel:
  "m_month_date (month_agg (k, rows)) = k"
  "m_headcount (month_agg (k, rows)) = agg_sum (map headcount rows)"
  "m_new_hires (month_agg (k, rows)) = agg_sum (map new_hires rows)"
  "m_terminations (month_agg (k, rows)) = agg_sum (map terminations rows)"
  "m_open_positions (month_agg (k, rows)) = agg_sum (map open_positions rows)"
  "m_avg_time_to_fill (month_agg (k, rows)) = agg_mean (map (\<lambda>r. f_of_int (time_to_fill_days r)) rows)"
  "m_avg_offer_acceptance (month_agg (k, rows)) = agg_mean (map offer_acceptance_rate rows)"
  "m_avg_turnover_rate (month_agg (k, rows)) = agg_mean (map turnover_rate rows)"
  by (simp_all add: month_agg_def)



section \<open>Month-over-month changes\<close>

lemma f_div_NaN [simp]: "f_div x NaN = NaN"
  by (cases x) simp_all

lemma f_add_NaN [simp]: "f_add x NaN = NaN"
  by (cases x) simp_all

lemma f_sub_NaN [simp]: "f_sub NaN y = NaN" "f_sub x NaN = NaN"
  by (simp_all add: f_sub_def)

lemma pct_100_110:
  "f_mul (f_sub (f_div (f_of_int 110) (f_of_int 100)) (Fin 1)) (Fin 100) = Fin (10 + 5 / 2 ^ 49)"
  by code_simp

lemma add_mom_first:
  assumes "aggs \<noteq> []"
  shows "headcount_mom_pct (add_mom aggs ! 0) = NaN"
    and "new_hires_mom_pct (add_mom aggs ! 0) = NaN"
    and "turnover_mom_delta (add_mom aggs ! 0) = NaN"
  using assms
  by (simp_all add: add_mom_nth with_mom_mom pct_change_nth diff_nth shift_nth)

lemma add_mom_later:
  assumes "0 < i" and "i < length aggs"
  shows "headcount_mom_pct (add_mom aggs ! i) =
      f_mul (f_sub (f_div (f_of_int (m_headcount (add_mom aggs ! i)))
                          (f_of_int (m_headcount (add_mom aggs ! (i - 1))))) (Fin 1)) (Fin 100)"
    and "new_hires_mom_pct (add_mom aggs ! i) =
      f_mul (f_sub (f_div (f_of_int (m_new_hires (add_mom aggs ! i)))
                          (f_of_int (m_new_hires (add_mom aggs ! (i - 1))))) (Fin 1)) (Fin 100)"
    and "turnover_mom_delta (add_mom aggs ! i) =
      f_sub (m_avg_turnover_rate (add_mom aggs ! i)) (m_avg_turnover_rate (add_mom aggs ! (i - 1)))"
  using assms
  by (simp_all add: add_mom_nth with_mom_mom with_mom_sel pct_change_nth diff_nth shift_nth)

lemma map_headcount_add_mom: "map m_headcount (add_mom aggs) = map m_headcount aggs"
  by (rule nth_equalityI) (simp_all add: length_add_mom add_mom_nth with_mom_sel)

lemma two_months_card: "2 \<le> card (month_date ` set two_months)"
  by (simp add: two_months_def eng_jan_def eng_feb_def hr_def)

lemma two_months_headcounts:
  "map m_headcount (monthly_table (stable_argsort (\<le>)) two_months) = [100, 110]"
proof -
  have "map m_headcount (monthly_table (stable_argsort (\<le>)) two_months)
      = map m_headcount (map month_agg (groupby month_date two_months))"
    by (simp only: monthly_table_def map_headcount_add_mom monthly_aggs_eq[OF stable_int_valid])
  also have "\<dots> = [100, 110]"
    by (simp add: groupby_def two_months_def eng_jan_def eng_feb_def hr_def month_agg_sel
        agg_sum_def int64_wrap_def)
  finally show ?thesis .
qed

text \<open>
  Claim C2, as the code has it. The first row of the monthly table has NaN in the three
  month-over-month columns. In every later row the two percentage columns are
  \<open>(curr / prev - 1) * 100\<close> on the totals of the row and of the row before it, computed
  in binary64 with each of the three operations rounded, and the turnover delta is the
  rounded difference of the two average turnover rates. For totals 100 and 110 the
  percentage is \<open>10 + 5 / 2 ^ 49\<close>, that is 10.000000000000009: the quotient 1.1 is not
  a binary64 number, and its rounding error is carried into the result.
\<close>

theorem mom_deltas:
  assumes vi: "valid_int_argsort srt_i" and vf: "valid_f64_argsort srt_f"
    and two: "2 \<le> card (month_date ` set df)"
  shows "\<exists>res. build_insights srt_i srt_f df = Inr res
     \<and> headcount_mom_pct (monthly res ! 0) = NaN
     \<and> new_hires_mom_pct (monthly res ! 0) = NaN
     \<and> turnover_mom_delta (monthly res ! 0) = NaN
     \<and> (\<forall>i. 0 < i \<and> i < length (monthly res) \<longrightarrow>
          headcount_mom_pct (monthly res ! i) =
            f_mul (f_sub (f_div (f_of_int (m_headcount (monthly res ! i)))
                                (f_of_int (m_headcount (monthly res ! (i - 1))))) (Fin 1)) (Fin 100)
        \<and> new_hires_mom_pct (monthly res ! i) =
            f_mul (f_sub (f_div (f_of_int (m_new_hires (monthly res ! i)))
                                (f_of_int (m_new_hires (monthly res ! (i - 1))))) (Fin 1)) (Fin 100)
        \<and> turnover_mom_delta (monthly res ! i) =
            f_sub (m_avg_turnover_rate (monthly res ! i)) (m_avg_turnover_rate (monthly res ! (i - 1)))
        \<and> (m_headcount (monthly res ! (i - 1)) = 100 \<and> m_headcount (monthly res ! i) = 110
            \<longrightarrow> headcount_mom_pct (monthly res ! i) = Fin (10 + 5 / 2 ^ 49)))"
proof -
  let ?aggs = "monthly_aggs srt_i df"
  have mt: "monthly_table srt_i df = add_mom ?aggs"
    by (simp add: monthly_table_def)
  have len: "2 \<le> length ?aggs"
    using two length_monthly_table[OF vi, of df] by (simp add: mt length_add_mom)
  then have ne: "?aggs \<noteq> []" by auto
  have later: "headcount_mom_pct (add_mom ?aggs ! i) =
            f_mul (f_sub (f_div (f_of_int (m_headcount (add_mom ?aggs ! i)))
                                (f_of_int (m_headcount (add_mom ?aggs ! (i - 1))))) (Fin 1)) (Fin 100)
        \<and> new_hires_mom_pct (add_mom ?aggs ! i) =
            f_mul (f_sub (f_div (f_of_int (m_new_hires (add_mom ?aggs ! i)))
                                (f_of_int (m_new_hires (add_mom ?aggs ! (i - 1))))) (Fin 1)) (Fin 100)
        \<and> turnover_mom_delta (add_mom ?aggs ! i) =
            f_sub (m_avg_turnover_rate (add_mom ?aggs ! i)) (m_avg_turnover_rate (add_mom ?aggs ! (i - 1)))
        \<and> (m_headcount (add_mom ?aggs ! (i - 1)) = 100 \<and> m_headcount (add_mom ?aggs ! i) = 110
            \<longrightarrow> headcount_mom_pct (add_mom ?aggs ! i) = Fin (10 + 5 / 2 ^ 49))"
    if "0 < i" "i < length (add_mom ?aggs)" for i
  proof -
    from that have i: "0 < i" "i < length ?aggs" by (simp_all add: length_add_mom)
    note l = add_mom_later[OF i]
    have "headcount_mom_pct (add_mom ?aggs ! i) = Fin (10 + 5 / 2 ^ 49)"
      if "m_headcount (add_mom ?aggs ! (i - 1)) = 100" "m_headcount (add_mom ?aggs ! i) = 110"
      unfolding l(1) that by (rule pct_100_110)
    with l show ?thesis by blast
  qed
  have res: "build_insights srt_i srt_f df = Inr
     \<lparr> monthly = add_mom ?aggs,
       dept_latest = dept_table srt_i df (m_month_date (last (add_mom ?aggs))),
       latest = last (add_mom ?aggs),
       prior = add_mom ?aggs ! (length (add_mom ?aggs) - 2),
       top_turnover = hd (sort_values f64_isna srt_f d_turnover_rate False
         (dept_table srt_i df (m_month_date (last (add_mom ?aggs))))),
       best_ttf = hd (sort_values f64_isna srt_f d_time_to_fill_days True
         (dept_table srt_i df (m_month_date (last (add_mom ?aggs))))) \<rparr>"
    using build_insights_result[OF vi vf two] unfolding mt .
  show ?thesis
    unfolding res
    apply (rule exI, rule conjI, rule refl)
    apply (simp only: insights.simps)
    using add_mom_first[OF ne] later by blast
qed

theorem mom_deltas_witness:
  "valid_int_argsort (stable_argsort (\<le>)) \<and> valid_f64_argsort (stable_argsort f_le)
   \<and> 2 \<le> card (month_date ` set two_months)
   \<and> (\<exists>res. build_insights (stable_argsort (\<le>)) (stable_argsort f_le) two_months = Inr res
     \<and> headcount_mom_pct (monthly res ! 0) = NaN
     \<and> new_hires_mom_pct (monthly res ! 0) = NaN
     \<and> turnover_mom_delta (monthly res ! 0) = NaN
     \<and> (\<forall>i. 0 < i \<and> i < length (monthly res) \<longrightarrow>
          headcount_mom_pct (monthly res ! i) =
            f_mul (f_sub (f_div (f_of_int (m_headcount (monthly res ! i)))
                                (f_of_int (m_headcount (monthly res ! (i - 1))))) (Fin 1)) (Fin 100)
        \<and> new_hires_mom_pct (monthly res ! i) =
            f_mul (f_sub (f_div (f_of_int (m_new_hires (monthly res ! i)))
                                (f_of_int (m_new_hires (monthly res ! (i - 1))))) (Fin 1)) (Fin 100)
        \<and> turnover_mom_delta (monthly res ! i) =
            f_sub (m_avg_turnover_rate (monthly res ! i)) (m_avg_turnover_rate (monthly res ! (i - 1)))
        \<and> (m_headcount (monthly res ! (i - 1)) = 100 \<and> m_headcount (monthly res ! i) = 110
            \<longrightarrow> headcount_mom_pct (monthly res ! i) = Fin (10 + 5 / 2 ^ 49))))"
  by (intro conjI stable_int_valid stable_f64_valid two_months_card
      mom_deltas[OF stable_int_valid stable_f64_valid two_months_card])

text \<open>
  The claim as it is written fails on the two-month example: the monthly head counts
  are 100 and 110, and the second row's \<open>headcount_mom_pct\<close> is not the number 10.
\<close>

theorem headcount_mom_pct_counterexample:
  "map m_headcount (monthly (projr (build_insights (stable_argsort (\<le>)) (stable_argsort f_le) two_months)))
     = [100, 110]
   \<and> headcount_mom_pct
       (monthly (projr (build_insights (stable_argsort (\<le>)) (stable_argsort f_le) two_months)) ! 1)
     = Fin (10 + 5 / 2 ^ 49)
   \<and> Fin (10 + 5 / 2 ^ 49) \<noteq> Fin 10"
proof -
  let ?mt = "monthly_table (stable_argsort (\<le>)) two_months"
  have m: "monthly (projr (build_insights (stable_argsort (\<le>)) (stable_argsort f_le) two_months)) = ?mt"
    by (simp add: build_insights_result[OF stable_int_valid stable_f64_valid two_months_card])
  have len: "length (monthly_aggs (stable_argsort (\<le>)) two_months) = 2"
    using arg_cong[OF two_months_headcounts, of length]
    by (simp add: monthly_table_def length_add_mom)
  have h0: "m_headcount (?mt ! 0) = 100" and h1: "m_headcount (?mt ! 1) = 110"
    using arg_cong[OF two_months_headcounts, of "\<lambda>xs. xs ! 0"]
      arg_cong[OF two_months_headcounts, of "\<lambda>xs. xs ! 1"] len
    by (simp_all add: monthly_table_def length_add_mom)
  have "headcount_mom_pct (?mt ! 1) =
      f_mul (f_sub (f_div (f_of_int (m_headcount (?mt ! 1)))
                          (f_of_int (m_headcount (?mt ! (1 - 1))))) (Fin 1)) (Fin 100)"
    unfolding monthly_table_def by (rule add_mom_later(1)) (simp_all add: len)
  also have "\<dots> = Fin (10 + 5 / 2 ^ 49)"
    by (simp only: h0 h1 diff_self_eq_0 pct_100_110)
  finally have p: "headcount_mom_pct (?mt ! 1) = Fin (10 + 5 / 2 ^ 49)" .
  show ?thesis
    unfolding m using two_months_headcounts p by simp
qed

section \<open>Properties of binary64 rounding\<close>

lemma quotient_of_pos:
  assumes "0 < q" and "quotient_of q = (a, b)"
  shows "0 < a" "0 < b" "q = of_int a / of_int b"
proof -
  show b: "0 < b" using assms(2) by (rule quotient_of_denom_pos)
  show q: "q = of_int a / of_int b" using assms(2) by (rule quotient_of_div)
  show "0 < a" using assms(1) b q by (simp add: zero_less_divide_iff)
qed

lemma bitlen_pos_bounds:
  assumes "0 < (a::int)"
  shows "(2::rat) powi (bitlen a - 1) \<le> of_int a" "of_int a < (2::rat) powi (bitlen a)" "1 \<le> bitlen a"
proof -
  have b: "2 ^ nat (bitlen a - 1) \<le> a" "a < 2 ^ nat (bitlen a)"
    using bitlen_bounds[OF assms] by auto
  show one: "1 \<le> bitlen a" using assms by (simp add: bitlen_alt_def)
  have "(2::rat) powi (bitlen a - 1) = 2 ^ nat (bitlen a - 1)"
    using one by (simp add: power_int_def)
  also have "\<dots> = of_int (2 ^ nat (bitlen a - 1))" by simp
  also have "\<dots> \<le> of_int a" using b(1) by (simp only: of_int_le_iff)
  finally show "(2::rat) powi (bitlen a - 1) \<le> of_int a" .
  have "of_int a < (of_int (2 ^ nat (bitlen a)) :: rat)" using b(2) by (simp only: of_int_less_iff)
  also have "\<dots> = 2 powi (bitlen a)" using one by (simp add: power_int_def)
  finally show "of_int a < (2::rat) powi (bitlen a)" .
qed

lemma ilog2_bounds:
  assumes "0 < q"
  shows "2 powi (ilog2 q) \<le> q" and "q < 2 powi (ilog2 q + 1)"
proof -
  obtain a b where ab: "quotient_of q = (a, b)" by (cases "quotient_of q")
  note p = quotient_of_pos[OF assms ab]
  note ba = bitlen_pos_bounds[OF p(1)]
  note bb = bitlen_pos_bounds[OF p(2)]
  let ?k = "bitlen a - bitlen b"
  have bpos: "0 < (of_int b :: rat)" using p(2) by simp
  have lo: "(2::rat) powi (?k - 1) \<le> q"
  proof -
    have "(2::rat) powi (?k - 1) = 2 powi (bitlen a - 1) / 2 powi (bitlen b)"
      by (simp add: power_int_diff)
    also have "\<dots> \<le> of_int a / 2 powi (bitlen b)"
      using ba(1) by (simp add: divide_right_mono)
    also have "\<dots> \<le> of_int a / of_int b"
      using bb(2) bpos p(1) by (intro divide_left_mono) (auto simp: less_imp_le intro!: mult_pos_pos)
    finally show ?thesis using p(3) by simp
  qed
  have hi: "q < (2::rat) powi (?k + 1)"
  proof -
    have "q = of_int a / of_int b" by (rule p(3))
    also have "\<dots> < 2 powi (bitlen a) / of_int b"
      using ba(2) bpos by (simp add: divide_strict_right_mono)
    also have "\<dots> \<le> 2 powi (bitlen a) / 2 powi (bitlen b - 1)"
      using bb(1) bpos by (intro divide_left_mono) (auto simp: less_imp_le intro!: mult_pos_pos)
    also have "\<dots> = 2 powi (?k + 1)"
      by (simp add: power_int_diff power_int_add field_simps)
    finally show ?thesis .
  qed
  have d: "ilog2 q = (if 2 powi ?k \<le> q then ?k else ?k - 1)"
    by (simp add: ilog2_def ab Let_def)
  show "2 powi (ilog2 q) \<le> q" using lo by (simp add: d)
  show "q < 2 powi (ilog2 q + 1)" using hi by (auto simp: d not_le)
qed

lemma rne_floor: "rne q = \<lfloor>q\<rfloor> \<or> rne q = \<lfloor>q\<rfloor> + 1"
  by (simp add: rne_def Let_def)

lemma rne_of_int [simp]: "rne (of_int n) = n"
  by (simp add: rne_def Let_def)

lemma rne_mono:
  assumes "x \<le> y"
  shows "rne x \<le> rne y"
proof (cases "\<lfloor>x\<rfloor> = \<lfloor>y\<rfloor>")
  case True
  then show ?thesis
    using assms unfolding rne_def Let_def by (simp split: if_splits)
next
  case False
  then have "\<lfloor>x\<rfloor> + 1 \<le> \<lfloor>y\<rfloor>"
    using assms floor_mono[of x y] by linarith
  moreover have "rne x \<le> \<lfloor>x\<rfloor> + 1" using rne_floor[of x] by auto
  moreover have "\<lfloor>y\<rfloor> \<le> rne y" using rne_floor[of y] by auto
  ultimately show ?thesis by linarith
qed


lemma floor_minus_nonint:
  fixes q :: rat
  assumes "q \<noteq> of_int \<lfloor>q\<rfloor>"
  shows "\<lfloor>- q\<rfloor> = - \<lfloor>q\<rfloor> - 1"
  using assms by (simp add: floor_minus ceiling_altdef)

lemma rne_minus: "rne (- q) = - rne q"
proof (cases "q = of_int \<lfloor>q\<rfloor>")
  case True
  then obtain n where n: "q = of_int n" ..
  have "rne (- q) = rne (of_int (- n))" unfolding n by simp
  also have "\<dots> = - n" by (rule rne_of_int)
  finally show ?thesis by (simp add: n)
next
  case False
  note c = floor_minus_nonint[OF False]
  define f where "f = \<lfloor>q\<rfloor>"
  define d where "d = q - of_int f"
  have d: "0 < d" "d < 1"
    using False by (auto simp: d_def f_def less_le) linarith+
  have e: "- q - of_int (- f - 1) = 1 - d" by (simp add: d_def)
  have l: "rne q = (if d < 1/2 then f else if 1/2 < d then f + 1 else if even f then f else f + 1)"
    by (simp add: rne_def Let_def d_def f_def)
  have r: "rne (- q) = (if 1 - d < 1/2 then - f - 1 else if 1/2 < 1 - d then - f
      else if even (- f - 1) then - f - 1 else - f)"
    unfolding rne_def Let_def c f_def[symmetric] e by simp
  show ?thesis
    unfolding l r using d by (auto simp: not_less)
qed

lemma two_powi_pos [simp]: "0 < (2::rat) powi n"
  by (simp add: zero_less_power_int)

lemma ilog2_mono:
  assumes "0 < x" and "x \<le> y"
  shows "ilog2 x \<le> ilog2 y"
proof (rule ccontr)
  assume "\<not> ilog2 x \<le> ilog2 y"
  then have "ilog2 y + 1 \<le> ilog2 x" by simp
  then have "(2::rat) powi (ilog2 y + 1) \<le> 2 powi (ilog2 x)"
    by (intro power_int_increasing) simp_all
  moreover have "y < 2 powi (ilog2 y + 1)" using assms by (intro ilog2_bounds) simp
  moreover have "2 powi (ilog2 x) \<le> x" using assms by (intro ilog2_bounds)
  ultimately show False using assms by linarith
qed

lemma ilog2_unique:
  assumes "2 powi e \<le> q" and "q < 2 powi (e + 1)"
  shows "ilog2 q = e"
proof -
  have q: "0 < q" using assms(1) two_powi_pos[of e] by linarith
  note b = ilog2_bounds[OF q]
  have "\<not> ilog2 q + 1 \<le> e"
  proof
    assume "ilog2 q + 1 \<le> e"
    then have "(2::rat) powi (ilog2 q + 1) \<le> 2 powi e"
      by (intro power_int_increasing) simp_all
    with b(2) assms(1) show False by linarith
  qed
  moreover have "\<not> e + 1 \<le> ilog2 q"
  proof
    assume "e + 1 \<le> ilog2 q"
    then have "(2::rat) powi (e + 1) \<le> 2 powi (ilog2 q)"
      by (intro power_int_increasing) simp_all
    with b(1) assms(2) show False by linarith
  qed
  ultimately show ?thesis by linarith
qed

lemma ulp_exp_mono: "0 < x \<Longrightarrow> x \<le> y \<Longrightarrow> ulp_exp x \<le> ulp_exp y"
  using ilog2_mono[of x y] by (simp add: ulp_exp_def)

lemma ulp_exp_minus [simp]: "ulp_exp (- q) = ulp_exp q"
  by (simp add: ulp_exp_def)

lemma fl_minus: "fl (- q) = - fl q"
  by (simp add: fl_def Let_def rne_minus minus_divide_left[symmetric])

lemma fl_pos_eq: "0 < q \<Longrightarrow> fl q = of_int (rne (q / 2 powi (ulp_exp q))) * 2 powi (ulp_exp q)"
  by (simp add: fl_def Let_def)

lemma fl_upper:
  assumes "0 < q"
  shows "fl q \<le> 2 powi (ulp_exp q + 53)"
proof -
  let ?e = "ulp_exp q"
  have "ilog2 q + 1 \<le> ?e + 53" using assms by (simp add: ulp_exp_def)
  then have "(2::rat) powi (ilog2 q + 1) \<le> 2 powi (?e + 53)"
    by (intro power_int_increasing) simp_all
  with ilog2_bounds(2)[OF assms] have "q \<le> 2 powi (?e + 53)" by linarith
  then have "q / 2 powi ?e \<le> 2 powi (?e + 53) / 2 powi ?e"
    by (intro divide_right_mono) (simp_all add: less_imp_le)
  also have "\<dots> = of_int (2 ^ 53)"
    by (simp add: power_int_add)
  finally have "rne (q / 2 powi ?e) \<le> rne (of_int (2 ^ 53))"
    by (rule rne_mono)
  then have "rne (q / 2 powi ?e) \<le> 2 ^ 53" by (simp only: rne_of_int)
  then have "(of_int (rne (q / 2 powi ?e)) :: rat) \<le> of_int (2 ^ 53)"
    by (simp only: of_int_le_iff)
  then have "of_int (rne (q / 2 powi ?e)) * 2 powi ?e \<le> of_int (2 ^ 53) * (2::rat) powi ?e"
    by (intro mult_right_mono) (simp_all add: less_imp_le)
  also have "\<dots> = 2 powi (?e + 53)" by (simp add: power_int_add)
  finally show ?thesis by (simp only: fl_pos_eq[OF assms])
qed

lemma fl_lower:
  assumes "0 < q" and "- 1074 < ulp_exp q"
  shows "2 powi (ulp_exp q + 52) \<le> fl q"
proof -
  let ?e = "ulp_exp q"
  have e: "?e + 52 = ilog2 q" using assms by (simp add: ulp_exp_def max_def split: if_splits)
  have "2 powi (?e + 52) \<le> q" unfolding e using assms(1) by (intro ilog2_bounds)
  then have "2 powi (?e + 52) / 2 powi ?e \<le> q / 2 powi ?e"
    by (intro divide_right_mono) (simp_all add: less_imp_le)
  moreover have "2 powi (?e + 52) / 2 powi ?e = (of_int (2 ^ 52) :: rat)"
    by (simp add: power_int_add)
  ultimately have "of_int (2 ^ 52) \<le> q / 2 powi ?e" by simp
  then have "rne (of_int (2 ^ 52)) \<le> rne (q / 2 powi ?e)"
    by (rule rne_mono)
  then have "2 ^ 52 \<le> rne (q / 2 powi ?e)" by (simp only: rne_of_int)
  then have "(of_int (2 ^ 52) :: rat) \<le> of_int (rne (q / 2 powi ?e))"
    by (simp only: of_int_le_iff)
  then have "of_int (2 ^ 52) * (2::rat) powi ?e \<le> of_int (rne (q / 2 powi ?e)) * 2 powi ?e"
    by (intro mult_right_mono) (simp_all add: less_imp_le)
  moreover have "of_int (2 ^ 52) * (2::rat) powi ?e = 2 powi (?e + 52)"
    by (simp add: power_int_add)
  ultimately show ?thesis by (simp only: fl_pos_eq[OF assms(1)])
qed

lemma fl_nonneg:
  assumes "0 \<le> q"
  shows "0 \<le> fl q"
proof (cases "q = 0")
  case True
  then show ?thesis by (simp add: fl_def)
next
  case False
  with assms have q: "0 < q" by simp
  have "0 \<le> q / 2 powi (ulp_exp q)" using q by (simp add: less_imp_le)
  then have "rne 0 \<le> rne (q / 2 powi (ulp_exp q))" by (rule rne_mono)
  moreover have "rne 0 = 0" using rne_of_int[of 0] by simp
  ultimately have "0 \<le> rne (q / 2 powi (ulp_exp q))" by simp
  then show ?thesis
    by (simp add: fl_pos_eq[OF q] less_imp_le)
qed

lemma fl_mono_pos:
  assumes "0 < x" and "x \<le> y"
  shows "fl x \<le> fl y"
proof -
  have y: "0 < y" using assms by linarith
  have e: "ulp_exp x \<le> ulp_exp y" using assms by (rule ulp_exp_mono)
  show ?thesis
  proof (cases "ulp_exp x = ulp_exp y")
    case True
    have "x / 2 powi (ulp_exp y) \<le> y / 2 powi (ulp_exp y)"
      using assms(2) by (intro divide_right_mono) (simp_all add: less_imp_le)
    then have "rne (x / 2 powi (ulp_exp y)) \<le> rne (y / 2 powi (ulp_exp y))"
      by (rule rne_mono)
    then have "(of_int (rne (x / 2 powi (ulp_exp y))) :: rat) \<le> of_int (rne (y / 2 powi (ulp_exp y)))"
      by (simp only: of_int_le_iff)
    then have "of_int (rne (x / 2 powi (ulp_exp y))) * 2 powi (ulp_exp y)
        \<le> of_int (rne (y / 2 powi (ulp_exp y))) * (2::rat) powi (ulp_exp y)"
      by (intro mult_right_mono) (simp_all add: less_imp_le)
    then show ?thesis
      by (simp only: fl_pos_eq[OF assms(1)] fl_pos_eq[OF y] True)
  next
    case False
    with e have lt: "ulp_exp x + 53 \<le> ulp_exp y + 52" by simp
    have "- 1074 \<le> ulp_exp x" by (simp add: ulp_exp_def)
    with False e have n: "- 1074 < ulp_exp y" by linarith
    have "fl x \<le> 2 powi (ulp_exp x + 53)" using assms(1) by (rule fl_upper)
    also have "\<dots> \<le> 2 powi (ulp_exp y + 52)"
      using lt by (intro power_int_increasing) simp_all
    also have "\<dots> \<le> fl y" using y n by (rule fl_lower)
    finally show ?thesis .
  qed
qed

lemma fl_zero [simp]: "fl 0 = 0"
  by (simp add: fl_def)

lemma fl_mono:
  assumes "x \<le> y"
  shows "fl x \<le> fl y"
proof -
  consider "0 < x" | "x \<le> 0" "0 \<le> y" | "y < 0" by linarith
  then show ?thesis
  proof cases
    case 1
    then show ?thesis using assms by (rule fl_mono_pos)
  next
    case 2
    have "fl x \<le> 0" using fl_nonneg[of "- x"] 2(1) by (simp add: fl_minus)
    moreover have "0 \<le> fl y" using 2(2) by (rule fl_nonneg)
    ultimately show ?thesis by linarith
  next
    case 3
    then have "fl (- y) \<le> fl (- x)" using assms by (intro fl_mono_pos) simp_all
    then show ?thesis by (simp add: fl_minus)
  qed
qed

lemma fl_pos:
  assumes "1 \<le> q"
  shows "0 < fl q"
proof -
  have q: "0 < q" using assms by linarith
  have "ilog2 1 \<le> ilog2 q" using assms by (intro ilog2_mono) simp_all
  moreover have "ilog2 1 = 0" by (rule ilog2_unique) simp_all
  ultimately have "- 1074 < ulp_exp q" using q by (simp add: ulp_exp_def)
  with q have "2 powi (ulp_exp q + 52) \<le> fl q" by (rule fl_lower)
  then show ?thesis using two_powi_pos[of "ulp_exp q + 52"] by linarith
qed

lemma f_of_int_zero [simp]: "f_of_int 0 = Fin 0"
  by (simp add: f_of_int_def round64_def)

lemma round64_pos: "0 < fl q \<Longrightarrow> round64 q = PInf \<or> round64 q = Fin (fl q)"
  by (simp add: round64_def Let_def)

lemma round64_neg: "fl q < 0 \<Longrightarrow> round64 q = NInf \<or> round64 q = Fin (fl q)"
  by (simp add: round64_def Let_def)

lemma f_of_int_pos:
  assumes "0 < c"
  shows "f_of_int c = PInf \<or> (\<exists>r. 0 < r \<and> f_of_int c = Fin r)"
proof -
  have "(1::rat) \<le> of_int c" using assms by (simp add: int_one_le_iff_zero_less)
  then have "0 < fl (of_int c)" by (rule fl_pos)
  then show ?thesis
    using round64_pos[of "of_int c"] by (auto simp: f_of_int_def)
qed

lemma f_of_int_neg:
  assumes "c < 0"
  shows "f_of_int c = NInf \<or> (\<exists>r. r < 0 \<and> f_of_int c = Fin r)"
proof -
  have "(1::rat) \<le> of_int (- c)" using assms by (simp add: int_one_le_iff_zero_less)
  then have "0 < fl (of_int (- c))" by (rule fl_pos)
  then have "fl (of_int c) < 0" by (simp add: fl_minus)
  then show ?thesis
    using round64_neg[of "of_int c"] by (auto simp: f_of_int_def)
qed

lemma pct_zero_prev:
  "f_mul (f_sub (f_div (f_of_int cur) (f_of_int 0)) (Fin 1)) (Fin 100) = pct_of_zero cur"
proof -
  consider "0 < cur" | "cur < 0" | "cur = 0" by linarith
  then show ?thesis
  proof cases
    case 1
    then show ?thesis
      using f_of_int_pos[OF 1] by (auto simp: pct_of_zero_def f_sub_def f_sign_inf_def)
  next
    case 2
    then show ?thesis
      using f_of_int_neg[OF 2] by (auto simp: pct_of_zero_def f_sub_def f_sign_inf_def)
  next
    case 3
    then show ?thesis by (simp add: pct_of_zero_def f_sub_def)
  qed
qed

lemma is_inf_or_nan_pct_of_zero: "is_inf_or_nan (pct_of_zero cur)"
  by (simp add: is_inf_or_nan_def pct_of_zero_def)

section \<open>A zero total in the prior month\<close>

lemma map_new_hires_add_mom: "map m_new_hires (add_mom aggs) = map m_new_hires aggs"
  by (rule nth_equalityI) (simp_all add: length_add_mom add_mom_nth with_mom_sel)

lemma zero_then_staff_card: "2 \<le> card (month_date ` set zero_then_staff)"
  by (simp add: zero_then_staff_def empty_jan_def eng_feb_def hr_def)

lemma zero_then_staff_totals:
  "map m_headcount (monthly_table (stable_argsort (\<le>)) zero_then_staff) = [0, 110]"
  "map m_new_hires (monthly_table (stable_argsort (\<le>)) zero_then_staff) = [0, 8]"
proof -
  have "map m_headcount (monthly_table (stable_argsort (\<le>)) zero_then_staff)
      = map m_headcount (map month_agg (groupby month_date zero_then_staff))"
    by (simp only: monthly_table_def map_headcount_add_mom monthly_aggs_eq[OF stable_int_valid])
  also have "\<dots> = [0, 110]"
    by (simp add: groupby_def zero_then_staff_def empty_jan_def eng_feb_def hr_def month_agg_sel
        agg_sum_def int64_wrap_def)
  finally show "map m_headcount (monthly_table (stable_argsort (\<le>)) zero_then_staff) = [0, 110]" .
  have "map m_new_hires (monthly_table (stable_argsort (\<le>)) zero_then_staff)
      = map m_new_hires (map month_agg (groupby month_date zero_then_staff))"
    by (simp only: monthly_table_def map_new_hires_add_mom monthly_aggs_eq[OF stable_int_valid])
  also have "\<dots> = [0, 8]"
    by (simp add: groupby_def zero_then_staff_def empty_jan_def eng_feb_def hr_def month_agg_sel
        agg_sum_def int64_wrap_def)
  finally show "map m_new_hires (monthly_table (stable_argsort (\<le>)) zero_then_staff) = [0, 8]" .
qed

text \<open>
  Claim C7. Nothing guards the percentage change against a zero total. When the input
  has at least two months, \<open>build_insights\<close> returns a result, and in every row whose
  preceding row has a head count total of zero the column \<open>headcount_mom_pct\<close> is
  \<open>+inf\<close>, \<open>-inf\<close> or NaN, according to the sign of the row's own total; the same holds of
  \<open>new_hires_mom_pct\<close> and the new hires totals. No error is raised for it.
\<close>

theorem zero_prior_total_gives_inf_or_nan:
  assumes vi: "valid_int_argsort srt_i" and vf: "valid_f64_argsort srt_f"
    and two: "2 \<le> card (month_date ` set df)"
  shows "\<exists>res. build_insights srt_i srt_f df = Inr res
     \<and> (\<forall>i. 0 < i \<and> i < length (monthly res) \<longrightarrow>
          (m_headcount (monthly res ! (i - 1)) = 0 \<longrightarrow>
             headcount_mom_pct (monthly res ! i) = pct_of_zero (m_headcount (monthly res ! i))
           \<and> is_inf_or_nan (headcount_mom_pct (monthly res ! i)))
        \<and> (m_new_hires (monthly res ! (i - 1)) = 0 \<longrightarrow>
             new_hires_mom_pct (monthly res ! i) = pct_of_zero (m_new_hires (monthly res ! i))
           \<and> is_inf_or_nan (new_hires_mom_pct (monthly res ! i))))"
proof -
  let ?aggs = "monthly_aggs srt_i df"
  have mt: "monthly_table srt_i df = add_mom ?aggs"
    by (simp add: monthly_table_def)
  have step: "(m_headcount (add_mom ?aggs ! (i - 1)) = 0 \<longrightarrow>
             headcount_mom_pct (add_mom ?aggs ! i) = pct_of_zero (m_headcount (add_mom ?aggs ! i))
           \<and> is_inf_or_nan (headcount_mom_pct (add_mom ?aggs ! i)))
        \<and> (m_new_hires (add_mom ?aggs ! (i - 1)) = 0 \<longrightarrow>
             new_hires_mom_pct (add_mom ?aggs ! i) = pct_of_zero (m_new_hires (add_mom ?aggs ! i))
           \<and> is_inf_or_nan (new_hires_mom_pct (add_mom ?aggs ! i)))"
    if "0 < i" "i < length (add_mom ?aggs)" for i
  proof -
    from that have i: "0 < i" "i < length ?aggs" by (simp_all add: length_add_mom)
    note l = add_mom_later[OF i]
    have a: "headcount_mom_pct (add_mom ?aggs ! i) = pct_of_zero (m_headcount (add_mom ?aggs ! i))"
      if "m_headcount (add_mom ?aggs ! (i - 1)) = 0"
      unfolding l(1) that by (rule pct_zero_prev)
    have b: "new_hires_mom_pct (add_mom ?aggs ! i) = pct_of_zero (m_new_hires (add_mom ?aggs ! i))"
      if "m_new_hires (add_mom ?aggs ! (i - 1)) = 0"
      unfolding l(2) that by (rule pct_zero_prev)
    show ?thesis
      using a b by (simp add: is_inf_or_nan_pct_of_zero)
  qed
  have res: "build_insights srt_i srt_f df = Inr
     \<lparr> monthly = add_mom ?aggs,
       dept_latest = dept_table srt_i df (m_month_date (last (add_mom ?aggs))),
       latest = last (add_mom ?aggs),
       prior = add_mom ?aggs ! (length (add_mom ?aggs) - 2),
       top_turnover = hd (sort_values f64_isna srt_f d_turnover_rate False
         (dept_table srt_i df (m_month_date (last (add_mom ?aggs))))),
       best_ttf = hd (sort_values f64_isna srt_f d_time_to_fill_days True
         (dept_table srt_i df (m_month_date (last (add_mom ?aggs))))) \<rparr>"
    using build_insights_result[OF vi vf two] unfolding mt .
  show ?thesis
    unfolding res
    apply (rule exI, rule conjI, rule refl)
    apply (simp only: insights.simps)
    using step by blast
qed

theorem zero_prior_total_gives_inf_or_nan_witness:
  "valid_int_argsort (stable_argsort (\<le>)) \<and> valid_f64_argsort (stable_argsort f_le)
   \<and> 2 \<le> card (month_date ` set zero_then_staff)
   \<and> map m_headcount (monthly_table (stable_argsort (\<le>)) zero_then_staff) = [0, 110]
   \<and> (\<exists>res. build_insights (stable_argsort (\<le>)) (stable_argsort f_le) zero_then_staff = Inr res
     \<and> (\<forall>i. 0 < i \<and> i < length (monthly res) \<longrightarrow>
          (m_headcount (monthly res ! (i - 1)) = 0 \<longrightarrow>
             headcount_mom_pct (monthly res ! i) = pct_of_zero (m_headcount (monthly res ! i))
           \<and> is_inf_or_nan (headcount_mom_pct (monthly res ! i)))
        \<and> (m_new_hires (monthly res ! (i - 1)) = 0 \<longrightarrow>
             new_hires_mom_pct (monthly res ! i) = pct_of_zero (m_new_hires (monthly res ! i))
           \<and> is_inf_or_nan (new_hires_mom_pct (monthly res ! i)))))"
  by (intro conjI stable_int_valid stable_f64_valid zero_then_staff_card zero_then_staff_totals(1)
      zero_prior_total_gives_inf_or_nan[OF stable_int_valid stable_f64_valid zero_then_staff_card])

section \<open>What \<open>sort_values\<close> guarantees\<close>

lemma mset_map_nth_argsort:
  assumes v: "valid_argsort isna le srt" and na: "\<forall>k\<in>set ks. \<not> isna k"
    and len: "length xs = length ks"
  shows "mset (map (\<lambda>j. xs ! j) (srt ks)) = mset xs"
proof -
  have "mset (map (\<lambda>j. xs ! j) (srt ks)) = image_mset (\<lambda>j. xs ! j) (mset (srt ks))" by simp
  also have "\<dots> = image_mset (\<lambda>j. xs ! j) (mset [0..<length ks])"
    using v na by (simp add: valid_argsort_def)
  also have "\<dots> = mset (map (\<lambda>j. xs ! j) [0..<length xs])" by (simp add: len)
  also have "\<dots> = mset xs" by (simp add: map_nth)
  finally show ?thesis .
qed

lemma map_nth_map_nth:
  assumes "set js \<subseteq> {0..<length is}"
  shows "map (\<lambda>j. f (is ! j)) js = map (\<lambda>j. map f is ! j) js"
  using assms by (auto simp: subset_iff)

lemma nargsort_mset:
  assumes v: "valid_argsort isna le srt"
  shows "mset (nargsort isna srt items asc) = mset [0..<length items]"
proof -
  let ?idx = "[0..<length items]"
  let ?nn = "filter (\<lambda>i. \<not> isna (items ! i)) ?idx"
  let ?ks = "map (\<lambda>i. items ! i) ?nn"
  have a: "\<forall>k \<in> set ?ks. \<not> isna k" by auto
  have b: "\<forall>k \<in> set (rev ?ks). \<not> isna k" by auto
  have up: "mset (map (\<lambda>j. ?nn ! j) (srt ?ks)) = mset ?nn"
    by (rule mset_map_nth_argsort[OF v a]) simp
  have down: "mset (map (\<lambda>j. rev ?nn ! j) (srt (rev ?ks))) = mset ?nn"
    using mset_map_nth_argsort[OF v b, of "rev ?nn"] by simp
  have split: "mset ?nn + mset (filter (\<lambda>i. isna (items ! i)) ?idx) = mset ?idx"
    by (metis mset_filter multiset_partition union_commute filter_mset_cong)
  show ?thesis
    using up down split by (cases asc) (simp_all add: nargsort_def Let_def)
qed

lemma nargsort_set:
  "valid_argsort isna le srt \<Longrightarrow> set (nargsort isna srt items asc) = {0..<length items}"
  using nargsort_mset[of isna le srt items asc] by (metis set_mset_mset set_upt)

lemma sort_values_mset:
  assumes "valid_argsort isna le srt"
  shows "mset (sort_values isna srt col asc frame) = mset frame"
proof -
  have "mset (sort_values isna srt col asc frame)
      = image_mset (\<lambda>i. frame ! i) (mset (nargsort isna srt (map col frame) asc))"
    by (simp add: sort_values_def)
  also have "\<dots> = image_mset (\<lambda>i. frame ! i) (mset [0..<length frame])"
    using nargsort_mset[OF assms, of "map col frame" asc] by simp
  also have "\<dots> = mset (map (\<lambda>i. frame ! i) [0..<length frame])" by simp
  also have "\<dots> = mset frame" by (simp add: map_nth)
  finally show ?thesis .
qed

lemma sort_values_set:
  "valid_argsort isna le srt \<Longrightarrow> set (sort_values isna srt col asc frame) = set frame"
  using sort_values_mset[of isna le srt col asc frame] by (metis set_mset_mset)

lemma filter_idx_items:
  "map (\<lambda>i. items ! i) (filter (\<lambda>i. P (items ! i)) [0..<length items]) = filter P items"
proof -
  have "filter P items = filter P (map (\<lambda>i. items ! i) [0..<length items])"
    by (simp add: map_nth)
  also have "\<dots> = map (\<lambda>i. items ! i) (filter (\<lambda>i. P (items ! i)) [0..<length items])"
    by (simp add: filter_map comp_def)
  finally show ?thesis by simp
qed

lemma nargsort_asc:
  "nargsort isna srt items True =
     map (\<lambda>j. filter (\<lambda>i. \<not> isna (items ! i)) [0..<length items] ! j)
       (srt (map (\<lambda>i. items ! i) (filter (\<lambda>i. \<not> isna (items ! i)) [0..<length items])))
     @ filter (\<lambda>i. isna (items ! i)) [0..<length items]"
  by (simp add: nargsort_def Let_def)

lemma nargsort_desc:
  "nargsort isna srt items False =
     rev (map (\<lambda>j. rev (filter (\<lambda>i. \<not> isna (items ! i)) [0..<length items]) ! j)
       (srt (rev (map (\<lambda>i. items ! i) (filter (\<lambda>i. \<not> isna (items ! i)) [0..<length items])))))
     @ filter (\<lambda>i. isna (items ! i)) [0..<length items]"
  by (simp add: nargsort_def Let_def)

lemma nargsort_keys_asc:
  assumes v: "valid_argsort isna le srt"
  shows "\<exists>ks. map (\<lambda>i. items ! i) (nargsort isna srt items True) = ks @ filter isna items
      \<and> mset ks = mset (filter (\<lambda>k. \<not> isna k) items)
      \<and> sorted_wrt le ks"
proof -
  let ?idx = "[0..<length items]"
  let ?nn = "filter (\<lambda>i. \<not> isna (items ! i)) ?idx"
  let ?na = "filter (\<lambda>i. isna (items ! i)) ?idx"
  let ?ks = "map (\<lambda>i. items ! i) ?nn"
  let ?p = "srt ?ks"
  have ks: "?ks = filter (\<lambda>k. \<not> isna k) items" by (rule filter_idx_items)
  have na: "map (\<lambda>i. items ! i) ?na = filter isna items" by (rule filter_idx_items)
  have a: "\<forall>k \<in> set ?ks. \<not> isna k" by auto
  have r: "set ?p \<subseteq> {0..<length ?nn}" using set_argsort[OF v a] by simp
  have "map (\<lambda>i. items ! i) (map (\<lambda>j. ?nn ! j) ?p) = map (\<lambda>j. items ! (?nn ! j)) ?p"
    by (simp only: map_map comp_def)
  also have "\<dots> = map (\<lambda>j. ?ks ! j) ?p" using r by (rule map_nth_map_nth)
  finally have e: "map (\<lambda>i. items ! i) (map (\<lambda>j. ?nn ! j) ?p) = map (\<lambda>j. ?ks ! j) ?p" .
  have 1: "map (\<lambda>i. items ! i) (nargsort isna srt items True) = map (\<lambda>j. ?ks ! j) ?p @ filter isna items"
    by (simp only: nargsort_asc map_append e na)
  have 2: "mset (map (\<lambda>j. ?ks ! j) ?p) = mset (filter (\<lambda>k. \<not> isna k) items)"
    using map_nth_argsort[OF v a] by (simp only: ks)
  have 3: "sorted_wrt le (map (\<lambda>j. ?ks ! j) ?p)"
    using v a unfolding valid_argsort_def by blast
  from 1 2 3 show ?thesis by blast
qed

lemma nargsort_keys_desc:
  assumes v: "valid_argsort isna le srt"
  shows "\<exists>ks. map (\<lambda>i. items ! i) (nargsort isna srt items False) = ks @ filter isna items
      \<and> mset ks = mset (filter (\<lambda>k. \<not> isna k) items)
      \<and> sorted_wrt le (rev ks)"
proof -
  let ?idx = "[0..<length items]"
  let ?nn = "filter (\<lambda>i. \<not> isna (items ! i)) ?idx"
  let ?na = "filter (\<lambda>i. isna (items ! i)) ?idx"
  let ?ks = "map (\<lambda>i. items ! i) ?nn"
  let ?p = "srt (rev ?ks)"
  have ks: "?ks = filter (\<lambda>k. \<not> isna k) items" by (rule filter_idx_items)
  have na: "map (\<lambda>i. items ! i) ?na = filter isna items" by (rule filter_idx_items)
  have b: "\<forall>k \<in> set (rev ?ks). \<not> isna k" by auto
  have r: "set ?p \<subseteq> {0..<length (rev ?nn)}" using set_argsort[OF v b] by simp
  have rk: "map (\<lambda>i. items ! i) (rev ?nn) = rev ?ks" by (simp only: rev_map)
  have "map (\<lambda>i. items ! i) (map (\<lambda>j. rev ?nn ! j) ?p) = map (\<lambda>j. items ! (rev ?nn ! j)) ?p"
    by (simp only: map_map comp_def)
  also have "\<dots> = map (\<lambda>j. map (\<lambda>i. items ! i) (rev ?nn) ! j) ?p"
    using r by (rule map_nth_map_nth)
  also have "\<dots> = map (\<lambda>j. rev ?ks ! j) ?p" by (simp only: rk)
  finally have e: "map (\<lambda>i. items ! i) (map (\<lambda>j. rev ?nn ! j) ?p) = map (\<lambda>j. rev ?ks ! j) ?p" .
  have 1: "map (\<lambda>i. items ! i) (nargsort isna srt items False)
      = rev (map (\<lambda>j. rev ?ks ! j) ?p) @ filter isna items"
    by (simp only: nargsort_desc map_append rev_map[symmetric] e na)
  have "mset (map (\<lambda>j. rev ?ks ! j) ?p) = mset (rev ?ks)"
    using v b by (rule map_nth_argsort)
  then have 2: "mset (rev (map (\<lambda>j. rev ?ks ! j) ?p)) = mset (filter (\<lambda>k. \<not> isna k) items)"
    by (simp only: mset_rev ks)
  have "sorted_wrt le (map (\<lambda>j. rev ?ks ! j) ?p)"
    using v b unfolding valid_argsort_def by blast
  then have 3: "sorted_wrt le (rev (rev (map (\<lambda>j. rev ?ks ! j) ?p)))"
    by (simp only: rev_rev_ident)
  from 1 2 3 show ?thesis by blast
qed

lemma nargsort_keys:
  assumes v: "valid_argsort isna le srt"
  shows "\<exists>ks. map (\<lambda>i. items ! i) (nargsort isna srt items asc) = ks @ filter isna items
      \<and> mset ks = mset (filter (\<lambda>k. \<not> isna k) items)
      \<and> sorted_wrt le (if asc then ks else rev ks)"
proof (cases asc)
  case True
  then show ?thesis using nargsort_keys_asc[OF v, of items] by simp
next
  case False
  then show ?thesis using nargsort_keys_desc[OF v, of items] by simp
qed

lemma sort_values_keys:
  assumes v: "valid_argsort isna le srt"
  shows "\<exists>ks. map col (sort_values isna srt col asc frame) = ks @ filter isna (map col frame)
      \<and> mset ks = mset (filter (\<lambda>k. \<not> isna k) (map col frame))
      \<and> sorted_wrt le (if asc then ks else rev ks)"
proof -
  let ?ix = "nargsort isna srt (map col frame) asc"
  have r: "set ?ix \<subseteq> {0..<length frame}" using nargsort_set[OF v, of "map col frame" asc] by simp
  have "map col (sort_values isna srt col asc frame) = map (\<lambda>i. col (frame ! i)) ?ix"
    by (simp add: sort_values_def comp_def)
  also have "\<dots> = map (\<lambda>i. map col frame ! i) ?ix" using r by (rule map_nth_map_nth)
  finally show ?thesis using nargsort_keys[OF v, of "map col frame" asc] by simp
qed


section \<open>The department snapshot\<close>

lemma last_sorted_Max:
  fixes ys :: "'a::linorder list"
  assumes "sorted ys" and "ys \<noteq> []"
  shows "last ys = Max (set ys)"
proof -
  from assms(2) obtain zs z where ys: "ys = zs @ [z]" by (cases ys rule: rev_cases) auto
  have "\<forall>y\<in>set zs. y \<le> z" using assms(1) unfolding ys by (simp add: sorted_append)
  then have "Max (set ys) = z" unfolding ys by (intro Max_eqI) auto
  then show ?thesis by (simp add: ys)
qed

lemma latest_month_Max:
  assumes v: "valid_int_argsort srt_i" and ne: "df \<noteq> []"
  shows "m_month_date (last (monthly_table srt_i df)) = Max (month_date ` set df)"
proof -
  let ?mt = "monthly_table srt_i df"
  let ?ks = "sort (remdups (map month_date df))"
  have keys: "map m_month_date ?mt = ?ks" using v by (rule monthly_months)
  have kne: "?ks \<noteq> []" using ne by (metis length_0_conv length_map length_remdups_eq length_sort list.map_disc_iff remdups_eq_nil_iff)
  then have nonempty: "?mt \<noteq> []" using keys by auto
  then have "m_month_date (last ?mt) = last (map m_month_date ?mt)" by (simp add: last_map)
  also have "\<dots> = last ?ks" by (simp only: keys)
  also have "\<dots> = Max (set ?ks)" using kne by (intro last_sorted_Max) simp_all
  finally show ?thesis by simp
qed






lemma tied_depts_card: "2 \<le> card (month_date ` set tied_depts)"
  by (simp add: tied_depts_def ops_jan_def ops_feb_def sales_feb_def hr_def)

lemma tied_depts_latest:
  "m_month_date (last (monthly_table (stable_argsort (\<le>)) tied_depts)) = 1738368000000000000"
proof -
  have "tied_depts \<noteq> []" by (simp add: tied_depts_def)
  with stable_int_valid
  have "m_month_date (last (monthly_table (stable_argsort (\<le>)) tied_depts))
      = Max (month_date ` set tied_depts)" by (rule latest_month_Max)
  also have "\<dots> = 1738368000000000000"
    by (simp add: tied_depts_def ops_jan_def ops_feb_def sales_feb_def hr_def)
  finally show ?thesis .
qed




section \<open>The two superlatives of the summary\<close>

lemma tied_dept_table:
  "dept_table (stable_argsort (\<le>)) tied_depts 1738368000000000000 = tied_dl"
  by code_simp

lemma tied_top_stable:
  "map d_department (sort_values f64_isna (stable_argsort f_le) d_turnover_rate False tied_dl) = [''Ops'', ''Sales'']"
  by code_simp

lemma f_le_refl: "k \<noteq> NaN \<Longrightarrow> f_le k k"
  by (cases k) simp_all

lemma f_le_antisym: "f_le a b \<Longrightarrow> f_le b a \<Longrightarrow> a = b"
  by (cases a; cases b) auto

lemma f_le_not_NaN: "f_le a b \<Longrightarrow> a \<noteq> NaN \<and> b \<noteq> NaN"
  by (cases a; cases b) auto

lemma sort_values_hd:
  assumes v: "valid_argsort isna le srt" and ne: "frame \<noteq> []"
    and refl: "\<And>k. \<not> isna k \<Longrightarrow> le k k"
    and r: "r \<in> set frame" and na: "\<not> isna (col r)"
  shows "asc \<Longrightarrow> le (col (hd (sort_values isna srt col asc frame))) (col r)"
    and "\<not> asc \<Longrightarrow> le (col r) (col (hd (sort_values isna srt col asc frame)))"
proof -
  let ?sv = "sort_values isna srt col asc frame"
  from sort_values_keys[OF v, of col asc frame] obtain ks
    where k1: "map col ?sv = ks @ filter isna (map col frame)"
      and k2: "mset ks = mset (filter (\<lambda>k. \<not> isna k) (map col frame))"
      and k3: "sorted_wrt le (if asc then ks else rev ks)" by blast
  have "col r \<in> set (filter (\<lambda>k. \<not> isna k) (map col frame))" using r na by simp
  then have mem: "col r \<in> set ks" using k2 by (metis set_mset_mset)
  then obtain h t where ks: "ks = h # t" by (cases ks) auto
  have svne: "?sv \<noteq> []" using v ne by (rule sort_values_nonempty)
  have "hd (map col ?sv) = h" unfolding k1 ks by simp
  then have h: "col (hd ?sv) = h" using svne by (simp add: hd_map)
  have "h \<in> set (filter (\<lambda>k. \<not> isna k) (map col frame))"
    using k2 ks by (metis list.set_intros(1) set_mset_mset)
  then have hh: "le h h" using refl by simp
  show "le (col (hd ?sv)) (col r)" if "asc"
    using that k3 mem hh unfolding h ks by auto
  show "le (col r) (col (hd ?sv))" if "\<not> asc"
    using that k3 mem hh unfolding h ks by (auto simp: sorted_wrt_append)
qed

lemma hd_sort_values_in_frame:
  assumes "valid_argsort isna le srt" and "frame \<noteq> []"
  shows "hd (sort_values isna srt col asc frame) \<in> set frame"
  using sort_values_nonempty[OF assms, of col asc] sort_values_set[OF assms(1), of col asc frame]
  by (metis hd_in_set)

lemma hd_of_map: "map f xs = y # ys \<Longrightarrow> f (hd xs) = y"
  by (cases xs) auto

text \<open>
  Claim C4, as the code has it. The department named for the highest turnover is a row
  of \<open>dept_latest\<close> whose turnover rate is not below that of any other row, and the
  department named for the fastest hiring is a row whose time to fill is not above that
  of any other row (rows whose value is NaN aside). A row that alone attains the extreme
  is the one selected, whatever the sorting routine. Between rows that tie, the
  selection is the sorting routine's: \<open>sort_values\<close> runs with its default
  \<open>kind='quicksort'\<close>, which promises no order among equal keys.
\<close>

theorem superlatives_are_extremes:
  assumes vi: "valid_int_argsort srt_i" and vf: "valid_f64_argsort srt_f"
    and two: "2 \<le> card (month_date ` set df)"
  shows "\<exists>res. build_insights srt_i srt_f df = Inr res
     \<and> top_turnover res \<in> set (dept_latest res)
     \<and> best_ttf res \<in> set (dept_latest res)
     \<and> (\<forall>d \<in> set (dept_latest res). d_turnover_rate d \<noteq> NaN \<longrightarrow>
          f_le (d_turnover_rate d) (d_turnover_rate (top_turnover res)))
     \<and> (\<forall>d \<in> set (dept_latest res). d_time_to_fill_days d \<noteq> NaN \<longrightarrow>
          f_le (d_time_to_fill_days (best_ttf res)) (d_time_to_fill_days d))
     \<and> (\<forall>r \<in> set (dept_latest res).
          (\<forall>d \<in> set (dept_latest res). d \<noteq> r \<longrightarrow> f_lt (d_turnover_rate d) (d_turnover_rate r))
          \<longrightarrow> top_turnover res = r)
     \<and> (\<forall>r \<in> set (dept_latest res).
          (\<forall>d \<in> set (dept_latest res). d \<noteq> r \<longrightarrow> f_lt (d_time_to_fill_days r) (d_time_to_fill_days d))
          \<longrightarrow> best_ttf res = r)"
proof -
  let ?dl = "dept_table srt_i df (m_month_date (last (monthly_table srt_i df)))"
  let ?tt = "hd (sort_values f64_isna srt_f d_turnover_rate False ?dl)"
  let ?bt = "hd (sort_values f64_isna srt_f d_time_to_fill_days True ?dl)"
  have dfne: "df \<noteq> []" using two by auto
  have dl: "?dl \<noteq> []"
    using vi latest_month_in_frame[OF vi dfne] by (rule dept_table_nonempty)
  have t_in: "?tt \<in> set ?dl" using vf dl by (rule hd_sort_values_in_frame)
  have b_in: "?bt \<in> set ?dl" using vf dl by (rule hd_sort_values_in_frame)
  have t_max: "f_le (d_turnover_rate d) (d_turnover_rate ?tt)"
    if "d \<in> set ?dl" "d_turnover_rate d \<noteq> NaN" for d
    using sort_values_hd(2)[OF vf dl _ that(1), of d_turnover_rate False] that(2)
    by (simp add: f64_isna_def f_le_refl)
  have b_min: "f_le (d_time_to_fill_days ?bt) (d_time_to_fill_days d)"
    if "d \<in> set ?dl" "d_time_to_fill_days d \<noteq> NaN" for d
    using sort_values_hd(1)[OF vf dl _ that(1), of d_time_to_fill_days True] that(2)
    by (simp add: f64_isna_def f_le_refl)
  have t_uniq: "?tt = r"
    if r: "r \<in> set ?dl"
      and u: "\<forall>d \<in> set ?dl. d \<noteq> r \<longrightarrow> f_lt (d_turnover_rate d) (d_turnover_rate r)" for r
  proof (rule ccontr)
    assume n: "?tt \<noteq> r"
    with u t_in have lt: "f_lt (d_turnover_rate ?tt) (d_turnover_rate r)" by blast
    then have "d_turnover_rate r \<noteq> NaN" using f_le_not_NaN by (auto simp: f_lt_def)
    with r have "f_le (d_turnover_rate r) (d_turnover_rate ?tt)" by (rule t_max)
    with lt show False using f_le_antisym by (auto simp: f_lt_def)
  qed
  have b_uniq: "?bt = r"
    if r: "r \<in> set ?dl"
      and u: "\<forall>d \<in> set ?dl. d \<noteq> r \<longrightarrow> f_lt (d_time_to_fill_days r) (d_time_to_fill_days d)" for r
  proof (rule ccontr)
    assume n: "?bt \<noteq> r"
    with u b_in have lt: "f_lt (d_time_to_fill_days r) (d_time_to_fill_days ?bt)" by blast
    then have "d_time_to_fill_days r \<noteq> NaN" using f_le_not_NaN by (auto simp: f_lt_def)
    with r have "f_le (d_time_to_fill_days ?bt) (d_time_to_fill_days r)" by (rule b_min)
    with lt show False using f_le_antisym by (auto simp: f_lt_def)
  qed
  show ?thesis
    unfolding build_insights_result[OF vi vf two]
    apply (rule exI, rule conjI, rule refl)
    apply (simp only: insights.simps)
    using t_in b_in t_max b_min t_uniq b_uniq by blast
qed

theorem superlatives_are_extremes_witness:
  "valid_int_argsort (stable_argsort (\<le>)) \<and> valid_f64_argsort (stable_argsort f_le)
   \<and> 2 \<le> card (month_date ` set tied_depts)
   \<and> (\<exists>res. build_insights (stable_argsort (\<le>)) (stable_argsort f_le) tied_depts = Inr res
     \<and> top_turnover res \<in> set (dept_latest res)
     \<and> best_ttf res \<in> set (dept_latest res)
     \<and> (\<forall>d \<in> set (dept_latest res). d_turnover_rate d \<noteq> NaN \<longrightarrow>
          f_le (d_turnover_rate d) (d_turnover_rate (top_turnover res)))
     \<and> (\<forall>d \<in> set (dept_latest res). d_time_to_fill_days d \<noteq> NaN \<longrightarrow>
          f_le (d_time_to_fill_days (best_ttf res)) (d_time_to_fill_days d))
     \<and> (\<forall>r \<in> set (dept_latest res).
          (\<forall>d \<in> set (dept_latest res). d \<noteq> r \<longrightarrow> f_lt (d_turnover_rate d) (d_turnover_rate r))
          \<longrightarrow> top_turnover res = r)
     \<and> (\<forall>r \<in> set (dept_latest res).
          (\<forall>d \<in> set (dept_latest res). d \<noteq> r \<longrightarrow> f_lt (d_time_to_fill_days r) (d_time_to_fill_days d))
          \<longrightarrow> best_ttf res = r))"
  by (intro conjI stable_int_valid stable_f64_valid tied_depts_card
      superlatives_are_extremes[OF stable_int_valid stable_f64_valid tied_depts_card])

lemma four_depts_card: "2 \<le> card (month_date ` set four_depts)"
  by (simp add: four_depts_def eng_jan_def eng_feb4_def ops_feb4_def sales_feb4_def
      support_feb4_def hr_def)

lemma four_depts_latest:
  "m_month_date (last (monthly_table (vector_argsort (\<le>)) four_depts)) = 1738368000000000000"
proof -
  have "four_depts \<noteq> []" by (simp add: four_depts_def)
  with vector_int_valid
  have "m_month_date (last (monthly_table (vector_argsort (\<le>)) four_depts))
      = Max (month_date ` set four_depts)" by (rule latest_month_Max)
  also have "\<dots> = 1738368000000000000"
    by (simp add: four_depts_def eng_jan_def eng_feb4_def ops_feb4_def sales_feb4_def
      support_feb4_def hr_def)
  finally show ?thesis .
qed

lemma four_dept_table:
  "dept_table (vector_argsort (\<le>)) four_depts 1738368000000000000 = four_dl"
  by code_simp

lemma four_top_vector:
  "map d_department (sort_values f64_isna (vector_argsort f_le) d_turnover_rate False four_dl)
     = [''Support'', ''Sales'', ''Ops'', ''Eng'']"
  by code_simp

lemma four_best_vector:
  "map d_department (sort_values f64_isna (vector_argsort f_le) d_time_to_fill_days True four_dl)
     = [''Support'', ''Sales'', ''Ops'', ''Eng'']"
  by code_simp

lemma tied_top_vector:
  "map d_department (sort_values f64_isna (vector_argsort f_le) d_turnover_rate False tied_dl)
     = [''Ops'', ''Sales'']"
  by code_simp

lemma tied_best_vector:
  "map d_department (sort_values f64_isna (vector_argsort f_le) d_time_to_fill_days True tied_dl)
     = [''Ops'', ''Sales'']"
  by code_simp


text \<open>
  The claim as it is written fails on \<open>four_depts\<close> with the vectorised routine. Sales and
  Support tie on both measures and Sales comes first in \<open>dept_latest\<close>, yet Support is
  named twice: the network exchanges lanes 0 and 3 and lanes 1 and 2, which carries the
  two tied keys past each other. On \<open>tied_depts\<close>, with two departments, the same routine
  leaves the tied rows in place and names the first.
\<close>

theorem tie_break_counterexample:
  "valid_int_argsort (vector_argsort (\<le>)) \<and> valid_f64_argsort (vector_argsort f_le)
   \<and> map d_department (dept_latest (projr
         (build_insights (vector_argsort (\<le>)) (vector_argsort f_le) four_depts)))
       = [''Eng'', ''Ops'', ''Sales'', ''Support'']
   \<and> map d_turnover_rate (dept_latest (projr
         (build_insights (vector_argsort (\<le>)) (vector_argsort f_le) four_depts)))
       = [Fin 1, Fin 1, Fin 2, Fin 2]
   \<and> map d_time_to_fill_days (dept_latest (projr
         (build_insights (vector_argsort (\<le>)) (vector_argsort f_le) four_depts)))
       = [Fin 40, Fin 40, Fin 30, Fin 30]
   \<and> d_department (top_turnover (projr
         (build_insights (vector_argsort (\<le>)) (vector_argsort f_le) four_depts))) = ''Support''
   \<and> d_department (best_ttf (projr
         (build_insights (vector_argsort (\<le>)) (vector_argsort f_le) four_depts))) = ''Support''"
proof -
  have r: "projr (build_insights (vector_argsort (\<le>)) (vector_argsort f_le) four_depts) =
     \<lparr> monthly = monthly_table (vector_argsort (\<le>)) four_depts,
       dept_latest = four_dl,
       latest = last (monthly_table (vector_argsort (\<le>)) four_depts),
       prior = monthly_table (vector_argsort (\<le>)) four_depts
         ! (length (monthly_table (vector_argsort (\<le>)) four_depts) - 2),
       top_turnover = hd (sort_values f64_isna (vector_argsort f_le) d_turnover_rate False four_dl),
       best_ttf = hd (sort_values f64_isna (vector_argsort f_le) d_time_to_fill_days True four_dl) \<rparr>"
    by (simp only: build_insights_result[OF vector_int_valid vector_f64_valid four_depts_card]
        four_depts_latest four_dept_table sum.sel)
  have t: "d_department (hd (sort_values f64_isna (vector_argsort f_le) d_turnover_rate False four_dl))
      = ''Support''"
    using four_top_vector by (rule hd_of_map)
  have b: "d_department (hd (sort_values f64_isna (vector_argsort f_le) d_time_to_fill_days True four_dl))
      = ''Support''"
    using four_best_vector by (rule hd_of_map)
  show ?thesis
    unfolding r by (simp add: vector_int_valid vector_f64_valid t b) (simp add: four_dl_def)
qed

section \<open>A missing input file\<close>

lemma load_data_missing:
  "\<not> path_exists fs path \<Longrightarrow> load_data to_datetime fs path = Inl FileNotFoundError"
  by (simp add: load_data_def)

lemma add_month_date_error:
  "add_month_date to_datetime rows = Inl e \<Longrightarrow> e = ValueError"
  by (induction rows arbitrary: e) (auto split: option.splits sum.splits)

lemma read_csv_existing:
  "path_exists fs path \<Longrightarrow> read_csv fs path \<noteq> Inl FileNotFoundError"
  by (auto simp: read_csv_def path_exists_def split: option.splits content.splits)

lemma load_data_existing:
  assumes "path_exists fs path"
  shows "load_data to_datetime fs path \<noteq> Inl FileNotFoundError"
proof (cases "read_csv fs path")
  case (Inl e)
  with read_csv_existing[OF assms] show ?thesis
    using assms by (auto simp: load_data_def)
next
  case (Inr rows)
  then show ?thesis
    using assms add_month_date_error[of to_datetime rows FileNotFoundError]
    by (auto simp: load_data_def)
qed

lemma mkdir_keeps_missing:
  "mkdir fs d = Inr fs1 \<Longrightarrow> p \<noteq> d \<Longrightarrow> path_exists fs1 p = path_exists fs p"
  by (auto simp: mkdir_def path_exists_def split: if_splits)

lemma mkdir_files: "mkdir fs d = Inr fs1 \<Longrightarrow> files fs1 = files fs \<and> dirs fs1 = insert d (dirs fs)"
  by (auto simp: mkdir_def split: if_splits)

lemma bare_checkout_missing: "\<not> path_exists bare_checkout DATA_PATH"
  by (simp add: path_exists_def bare_checkout_def DATA_PATH_def)

text \<open>
  Claim C5, as the code has it. When the input path does not exist, \<open>load_data\<close> raises
  \<open>FileNotFoundError\<close> at once, the run of the report builder ends with an error, and no
  file is written or changed. The file system is not left as it was: the entry point
  creates the output directory before it calls the loader, so after the failure the
  directory exists (when no regular file of that name stood in the way, the run ends
  with this \<open>FileNotFoundError\<close> and the new directory is the only change). When the
  path exists, \<open>load_data\<close> never raises \<open>FileNotFoundError\<close>.
\<close>

theorem missing_input_file:
  assumes "\<not> path_exists fs DATA_PATH"
  shows "load_data to_datetime fs DATA_PATH = Inl FileNotFoundError
     \<and> fst (report_main srt_i srt_f to_datetime fs) \<noteq> None
     \<and> files (snd (report_main srt_i srt_f to_datetime fs)) = files fs
     \<and> (OUTPUT_DIR \<notin> dom (files fs) \<longrightarrow>
          report_main srt_i srt_f to_datetime fs =
            (Some FileNotFoundError, fs\<lparr>dirs := insert OUTPUT_DIR (dirs fs)\<rparr>))
     \<and> (\<forall>fs' path. path_exists fs' path \<longrightarrow>
          load_data to_datetime fs' path \<noteq> Inl FileNotFoundError)"
proof -
  have ne: "DATA_PATH \<noteq> OUTPUT_DIR" by (simp add: DATA_PATH_def OUTPUT_DIR_def)
  have a: "load_data to_datetime fs DATA_PATH = Inl FileNotFoundError"
    using assms by (rule load_data_missing)
  have m: "report_main srt_i srt_f to_datetime fs =
      (if OUTPUT_DIR \<in> dom (files fs) then (Some FileExistsError, fs)
       else (Some FileNotFoundError, fs\<lparr>dirs := insert OUTPUT_DIR (dirs fs)\<rparr>))"
  proof (cases "OUTPUT_DIR \<in> dom (files fs)")
    case True
    then show ?thesis by (simp add: report_main_def mkdir_def)
  next
    case False
    let ?fs1 = "fs\<lparr>dirs := insert OUTPUT_DIR (dirs fs)\<rparr>"
    have mk: "mkdir fs OUTPUT_DIR = Inr ?fs1" using False by (simp add: mkdir_def)
    have "\<not> path_exists ?fs1 DATA_PATH"
      using assms mkdir_keeps_missing[OF mk ne] by simp
    then have "load_data to_datetime ?fs1 DATA_PATH = Inl FileNotFoundError"
      by (rule load_data_missing)
    then show ?thesis using False mk by (simp add: report_main_def)
  qed
  show ?thesis
    using a load_data_existing by (auto simp: m)
qed

theorem missing_input_file_witness:
  "\<not> path_exists bare_checkout DATA_PATH
   \<and> path_exists with_data DATA_PATH
   \<and> load_data example_to_datetime bare_checkout DATA_PATH = Inl FileNotFoundError
   \<and> fst (report_main (stable_argsort (\<le>)) (stable_argsort f_le) example_to_datetime bare_checkout) \<noteq> None
   \<and> files (snd (report_main (stable_argsort (\<le>)) (stable_argsort f_le) example_to_datetime bare_checkout))
       = files bare_checkout
   \<and> OUTPUT_DIR \<notin> dom (files bare_checkout)
   \<and> report_main (stable_argsort (\<le>)) (stable_argsort f_le) example_to_datetime bare_checkout =
       (Some FileNotFoundError, bare_checkout\<lparr>dirs := insert OUTPUT_DIR (dirs bare_checkout)\<rparr>)
   \<and> load_data example_to_datetime with_data DATA_PATH \<noteq> Inl FileNotFoundError"
proof -
  have w: "path_exists with_data DATA_PATH"
    by (simp add: path_exists_def with_data_def)
  have o: "OUTPUT_DIR \<notin> dom (files bare_checkout)"
    by (simp add: bare_checkout_def)
  show ?thesis
    using missing_input_file[OF bare_checkout_missing, of example_to_datetime
        "stable_argsort (\<le>)" "stable_argsort f_le"] bare_checkout_missing w o
    by blast
qed

text \<open>
  The claim as it is written fails on a bare checkout, which has neither the data file
  nor the output directory: the run ends with \<open>FileNotFoundError\<close> and leaves a file
  system that differs from the initial one by the directory \<open>output\<close>.
\<close>

theorem missing_input_state_counterexample:
  "\<not> path_exists bare_checkout DATA_PATH
   \<and> report_main (stable_argsort (\<le>)) (stable_argsort f_le) example_to_datetime bare_checkout
       = (Some FileNotFoundError, \<lparr> files = Map.empty, dirs = {''output'', ''src''} \<rparr>)
   \<and> snd (report_main (stable_argsort (\<le>)) (stable_argsort f_le) example_to_datetime bare_checkout)
       \<noteq> bare_checkout"
proof -
  have r: "report_main (stable_argsort (\<le>)) (stable_argsort f_le) example_to_datetime bare_checkout
       = (Some FileNotFoundError, \<lparr> files = Map.empty, dirs = {''output'', ''src''} \<rparr>)"
    by (simp add: report_main_def mkdir_def load_data_def path_exists_def bare_checkout_def
        DATA_PATH_def OUTPUT_DIR_def)
  have "\<lparr> files = Map.empty, dirs = {''output'', ''src''} \<rparr> \<noteq> bare_checkout"
    by (auto simp: bare_checkout_def)
  with r bare_checkout_missing show ?thesis by simp
qed

section \<open>Bounds on binary64 results\<close>

lemma ilog2_powi: "ilog2 (2 powi k) = k"
  by (rule ilog2_unique) (simp_all add: power_int_strict_increasing)

lemma fl_powi:
  assumes "- 1022 \<le> k"
  shows "fl (2 powi k) = 2 powi k"
proof -
  note i = ilog2_powi[of k]
  have u: "ulp_exp (2 powi k) = k - 52"
    using assms by (simp add: ulp_exp_def i abs_of_pos)
  have "((2::rat) powi k) / 2 powi (k - 52) = of_int (2 ^ 52)"
    by (simp add: power_int_diff)
  then have "rne ((2 powi k) / 2 powi (k - 52)) = 2 ^ 52"
    by (simp only: rne_of_int)
  then have "fl (2 powi k) = of_int (2 ^ 52) * 2 powi (k - 52)"
    by (simp add: fl_pos_eq u)
  also have "\<dots> = 2 powi k" by (simp add: power_int_diff)
  finally show ?thesis .
qed

lemma fl_abs_le:
  assumes "\<bar>q\<bar> \<le> 2 powi k" and "- 1022 \<le> k"
  shows "\<bar>fl q\<bar> \<le> 2 powi k"
proof -
  have "q \<le> 2 powi k" "- (2 powi k) \<le> q" using assms(1) by (simp_all add: abs_le_iff)
  then have "fl q \<le> fl (2 powi k)" "fl (- (2 powi k)) \<le> fl q" by (auto intro: fl_mono)
  then show ?thesis by (simp add: fl_minus fl_powi[OF assms(2)] abs_le_iff)
qed

lemma round64_fin:
  assumes "\<bar>q\<bar> \<le> 2 ^ k" and "k \<le> 1023"
  shows "round64 q = Fin (fl q)" and "\<bar>fl q\<bar> \<le> 2 ^ k"
proof -
  have p: "(2::rat) ^ k = 2 powi (int k)" by simp
  have b: "\<bar>fl q\<bar> \<le> 2 powi (int k)" using assms(1) unfolding p by (rule fl_abs_le) simp
  then show "\<bar>fl q\<bar> \<le> 2 ^ k" by (simp only: p)
  have "ilog2 \<bar>fl q\<bar> < 1024" if "fl q \<noteq> 0"
  proof -
    have "0 < \<bar>fl q\<bar>" using that by simp
    then have "ilog2 \<bar>fl q\<bar> \<le> ilog2 (2 powi (int k))" using b by (rule ilog2_mono)
    also have "\<dots> = int k" by (rule ilog2_powi)
    finally show ?thesis using assms(2) by simp
  qed
  then show "round64 q = Fin (fl q)" by (auto simp: round64_def Let_def)
qed

lemma fin_leI: "x = Fin q \<Longrightarrow> \<bar>q\<bar> \<le> 2 ^ k \<Longrightarrow> fin_le k x"
  by (auto simp: fin_le_def)

lemma fin_le_mono: "fin_le a x \<Longrightarrow> a \<le> b \<Longrightarrow> fin_le b x"
proof -
  assume x: "fin_le a x" and ab: "a \<le> b"
  then obtain q where q: "x = Fin q" "\<bar>q\<bar> \<le> 2 ^ a" by (auto simp: fin_le_def)
  have "(2::rat) ^ a \<le> 2 ^ b" using ab by (simp add: power_increasing)
  with q(2) have "\<bar>q\<bar> \<le> 2 ^ b" by (rule order_trans)
  with q(1) show "fin_le b x" by (auto simp: fin_le_def)
qed

lemma fin_le_round64: "\<bar>q\<bar> \<le> 2 ^ k \<Longrightarrow> k \<le> 1023 \<Longrightarrow> fin_le k (round64 q)"
  using round64_fin[of q k] by (auto simp: fin_le_def)

lemma fin_le_lit: "\<bar>q\<bar> \<le> 2 ^ k \<Longrightarrow> k \<le> 1023 \<Longrightarrow> fin_le k (lit q)"
  unfolding lit_def by (rule fin_le_round64)

lemma fin_le_of_int: "\<bar>n\<bar> \<le> 2 ^ k \<Longrightarrow> k \<le> 1023 \<Longrightarrow> fin_le k (f_of_int n)"
proof -
  assume n: "\<bar>n\<bar> \<le> 2 ^ k" and k: "k \<le> 1023"
  have "\<bar>of_int n :: rat\<bar> = of_int \<bar>n\<bar>" by simp
  also have "\<dots> \<le> of_int (2 ^ k)" using n by (simp only: of_int_le_iff)
  finally have "\<bar>of_int n :: rat\<bar> \<le> 2 ^ k" by simp
  then show ?thesis using k unfolding f_of_int_def by (rule fin_le_round64)
qed

lemma fin_le_add:
  assumes "fin_le a x" and "fin_le b y" and "a \<le> k" and "b \<le> k" and "Suc k \<le> 1023"
  shows "fin_le (Suc k) (f_add x y)"
proof -
  from assms obtain p q where p: "x = Fin p" "\<bar>p\<bar> \<le> 2 ^ k" and q: "y = Fin q" "\<bar>q\<bar> \<le> 2 ^ k"
    using fin_le_mono by (metis fin_le_def)
  have "\<bar>p + q\<bar> \<le> 2 ^ Suc k" using p(2) q(2) by (simp add: abs_le_iff)
  then show ?thesis using assms(5) by (simp add: p q fin_le_round64)
qed

lemma fin_le_neg: "fin_le a x \<Longrightarrow> fin_le a (f_neg x)"
  by (auto simp: fin_le_def)

lemma fin_le_sub:
  assumes "fin_le a x" and "fin_le b y" and "a \<le> k" and "b \<le> k" and "Suc k \<le> 1023"
  shows "fin_le (Suc k) (f_sub x y)"
  unfolding f_sub_def using assms by (intro fin_le_add fin_le_neg)

lemma fin_le_mul:
  assumes "fin_le a x" and "fin_le b y" and "a + b \<le> 1023"
  shows "fin_le (a + b) (f_mul x y)"
proof -
  from assms obtain p q where p: "x = Fin p" "\<bar>p\<bar> \<le> 2 ^ a" and q: "y = Fin q" "\<bar>q\<bar> \<le> 2 ^ b"
    by (auto simp: fin_le_def)
  have "\<bar>p * q\<bar> = \<bar>p\<bar> * \<bar>q\<bar>" by (rule abs_mult)
  also have "\<dots> \<le> 2 ^ a * 2 ^ b" using p(2) q(2) by (intro mult_mono) simp_all
  finally have "\<bar>p * q\<bar> \<le> 2 ^ (a + b)" by (simp add: power_add)
  then show ?thesis using assms(3) by (simp add: p q fin_le_round64)
qed

section \<open>Clamping and rounding to decimals\<close>

lemma bounded_range:
  assumes "l \<le> h"
  shows "\<exists>r. bounded x (Fin l) (Fin h) = Fin r \<and> l \<le> r \<and> r \<le> h"
  using assms by (cases x) (auto simp: bounded_def py_max_def py_min_def f_lt_def)

lemma py_round_py_max:
  assumes "py_round (py_max (Fin (of_int c)) x) = Inr n"
  shows "c \<le> n"
proof (cases "f_lt (Fin (of_int c)) x")
  case True
  then have m: "py_max (Fin (of_int c)) x = x" by (simp add: py_max_def)
  with assms obtain q where q: "x = Fin q" "n = rne q" by (cases x) auto
  with True have "of_int c \<le> q" by (simp add: f_lt_def)
  then have "rne (of_int c) \<le> rne q" by (rule rne_mono)
  then show ?thesis by (simp add: q)
next
  case False
  then have "py_max (Fin (of_int c)) x = Fin (of_int c)" by (simp add: py_max_def)
  with assms show ?thesis by simp
qed

lemma lit_small: "\<bar>q\<bar> \<le> 2 ^ k \<Longrightarrow> k \<le> 1023 \<Longrightarrow> lit q = Fin (fl q)"
  unfolding lit_def by (rule round64_fin)

lemma fl_one: "fl 1 = 1"
  using fl_powi[of 0] by simp

lemma fl_unit:
  assumes "0 \<le> q" and "q \<le> 1"
  shows "0 \<le> fl q" and "fl q \<le> 1"
proof -
  show "0 \<le> fl q" using assms(1) by (rule fl_nonneg)
  have "fl q \<le> fl 1" using assms(2) by (rule fl_mono)
  then show "fl q \<le> 1" by (simp only: fl_one)
qed

lemma mul100_range:
  assumes "0 \<le> l" and "l \<le> r" and "r \<le> h" and "h \<le> 1"
  shows "\<exists>q. f_mul (Fin r) (Fin 100) = Fin q \<and> fl (l * 100) \<le> q \<and> q \<le> fl (h * 100)"
proof -
  have "\<bar>r * 100\<bar> \<le> 2 ^ 7" using assms by (simp add: abs_le_iff)
  then have "round64 (r * 100) = Fin (fl (r * 100))" by (rule round64_fin) simp
  moreover have "fl (l * 100) \<le> fl (r * 100)" using assms by (intro fl_mono) simp
  moreover have "fl (r * 100) \<le> fl (h * 100)" using assms by (intro fl_mono) simp
  ultimately show ?thesis by simp
qed

lemma rnd_mono: "x \<le> y \<Longrightarrow> rnd n x \<le> rnd n y"
  unfolding rnd_def
  by (intro fl_mono divide_right_mono) (simp_all add: rne_mono mult_right_mono)

lemma round_nd_small:
  assumes "0 \<le> q" and "q \<le> 2 ^ 7"
  shows "py_round_nd (Fin q) n = Fin (rnd n q)"
proof -
  let ?m = "rne (q * 10 ^ n)"
  have "rne (of_int 0) \<le> ?m" using assms(1) by (intro rne_mono) simp
  then have lo: "0 \<le> ?m" by (simp only: rne_of_int)
  have "q * 10 ^ n \<le> of_int (2 ^ 7 * 10 ^ n)" using assms(2) by (simp add: mult_right_mono)
  then have "?m \<le> rne (of_int (2 ^ 7 * 10 ^ n))" by (rule rne_mono)
  then have "?m \<le> 2 ^ 7 * 10 ^ n" by (simp only: rne_of_int)
  then have "(of_int ?m :: rat) \<le> of_int (2 ^ 7 * 10 ^ n)" by (simp only: of_int_le_iff)
  then have "(of_int ?m :: rat) / 10 ^ n \<le> of_int (2 ^ 7 * 10 ^ n) / 10 ^ n"
    by (intro divide_right_mono) simp_all
  then have hi: "(of_int ?m :: rat) / 10 ^ n \<le> 2 ^ 7" by simp
  have "0 \<le> (of_int ?m :: rat) / 10 ^ n" using lo by simp
  with hi have "\<bar>(of_int ?m :: rat) / 10 ^ n\<bar> \<le> 2 ^ 7" by (simp add: abs_le_iff)
  then have "round64 (of_int ?m / 10 ^ n) = Fin (fl (of_int ?m / 10 ^ n))"
    by (rule round64_fin) simp
  then show ?thesis by (simp add: rnd_def)
qed

lemma offer_ends:
  "rnd 1 (fl (fl (62/100) * 100)) = 62" "rnd 1 (fl (fl (95/100) * 100)) = 95"
  "0 \<le> fl (fl (62/100) * 100)" "fl (fl (95/100) * 100) \<le> 2 ^ 7"
  unfolding rnd_def by code_simp+

lemma turnover_ends:
  "2 / 5 \<le> rnd 2 (fl (fl (4/1000) * 100))" "rnd 2 (fl (fl (5/100) * 100)) = 5"
  "0 \<le> fl (fl (4/1000) * 100)" "fl (fl (5/100) * 100) \<le> 2 ^ 7"
  unfolding rnd_def by code_simp+

section \<open>The ranges of a generated row\<close>

lemma gen_row_Inr:
  assumes "gen_row lib i mon dept g = Inr (row, g')"
  shows "\<exists>x1 x2 x3 x4 x5 xt xo.
      py_round (py_max (Fin 8) x1) = Inr (headcount row)
    \<and> py_round (py_max (Fin 0) x2) = Inr (new_hires row)
    \<and> py_round (py_max (Fin 0) x3) = Inr (terminations row)
    \<and> py_round (py_max (Fin 0) x4) = Inr (open_positions row)
    \<and> py_round (py_max (Fin 15) x5) = Inr (time_to_fill_days row)
    \<and> offer_acceptance_rate row =
        py_round_nd (f_mul (bounded xo (lit (62/100)) (lit (95/100))) (Fin 100)) 1
    \<and> turnover_rate row =
        py_round_nd (f_mul (bounded xt (lit (4/1000)) (lit (5/100))) (Fin 100)) 2
    \<and> month row = strftime_Y_m mon \<and> department row = dept"
  using assms unfolding gen_row_def Let_def
  by (auto split: sum.splits prod.splits simp del: py_round.simps py_round_nd.simps)


lemma clamp_scale_round:
  assumes "0 \<le> a" and "a \<le> b" and "b \<le> 1"
    and "0 \<le> fl (fl a * 100)" and "fl (fl b * 100) \<le> 2 ^ 7"
  shows "\<exists>x. py_round_nd (f_mul (bounded v (lit a) (lit b)) (Fin 100)) n = Fin x
      \<and> rnd n (fl (fl a * 100)) \<le> x \<and> x \<le> rnd n (fl (fl b * 100))"
proof -
  have la: "lit a = Fin (fl a)" using assms by (intro lit_small[of a 0]) (simp_all add: abs_le_iff)
  have lb: "lit b = Fin (fl b)" using assms by (intro lit_small[of b 0]) (simp_all add: abs_le_iff)
  have ab: "fl a \<le> fl b" using assms(2) by (rule fl_mono)
  have a0: "0 \<le> fl a" using assms by (intro fl_unit) simp_all
  have b1: "fl b \<le> 1" using assms by (intro fl_unit) simp_all
  from bounded_range[OF ab, of v] obtain r
    where r: "bounded v (Fin (fl a)) (Fin (fl b)) = Fin r" "fl a \<le> r" "r \<le> fl b" by blast
  from mul100_range[OF a0 r(2) r(3) b1] obtain q
    where q: "f_mul (Fin r) (Fin 100) = Fin q" "fl (fl a * 100) \<le> q" "q \<le> fl (fl b * 100)"
    by blast
  have "0 \<le> q" "q \<le> 2 ^ 7" using q assms(4,5) by linarith+
  then have "py_round_nd (Fin q) n = Fin (rnd n q)" by (rule round_nd_small)
  moreover have "rnd n (fl (fl a * 100)) \<le> rnd n q" using q(2) by (rule rnd_mono)
  moreover have "rnd n q \<le> rnd n (fl (fl b * 100))" using q(3) by (rule rnd_mono)
  moreover have "f_mul (bounded v (lit a) (lit b)) (Fin 100) = Fin q"
    by (simp only: la lb r(1) q(1))
  ultimately show ?thesis by metis
qed

lemma gen_row_in_range:
  assumes "gen_row lib i mon dept g = Inr (row, g')"
  shows "row_in_range row"
proof -
  from gen_row_Inr[OF assms] obtain x1 x2 x3 x4 x5 xt xo where
    h: "py_round (py_max (Fin (of_int 8)) x1) = Inr (headcount row)"
      "py_round (py_max (Fin (of_int 0)) x2) = Inr (new_hires row)"
      "py_round (py_max (Fin (of_int 0)) x3) = Inr (terminations row)"
      "py_round (py_max (Fin (of_int 0)) x4) = Inr (open_positions row)"
      "py_round (py_max (Fin (of_int 15)) x5) = Inr (time_to_fill_days row)"
    and o: "offer_acceptance_rate row =
        py_round_nd (f_mul (bounded xo (lit (62/100)) (lit (95/100))) (Fin 100)) 1"
    and t: "turnover_rate row =
        py_round_nd (f_mul (bounded xt (lit (4/1000)) (lit (5/100))) (Fin 100)) 2"
    by auto
  from clamp_scale_round[of "62/100" "95/100" xo 1] offer_ends obtain x
    where x: "offer_acceptance_rate row = Fin x" "62 \<le> x" "x \<le> 95"
    unfolding o by auto
  from clamp_scale_round[of "4/1000" "5/100" xt 2] turnover_ends obtain y
    where y: "turnover_rate row = Fin y" "2 / 5 \<le> y" "y \<le> 5"
    unfolding t by fastforce
  show ?thesis
    unfolding row_in_range_def
    using h[THEN py_round_py_max] x y by simp
qed

lemma gen_rows_in_range:
  "gen_rows lib js g = Inr rows \<Longrightarrow> row \<in> set rows \<Longrightarrow> row_in_range row"
proof (induction js arbitrary: g rows)
  case Nil
  then show ?case by simp
next
  case (Cons j js)
  obtain i mon dept where j: "j = (i, mon, dept)" by (cases j)
  from Cons.prems(1) obtain r g1 rs where
    a: "gen_row lib i mon dept g = Inr (r, g1)" and b: "gen_rows lib js g1 = Inr rs"
    and c: "rows = r # rs"
    unfolding j by (auto split: sum.splits prod.splits)
  from Cons.prems(2) c consider "row = r" | "row \<in> set rs" by auto
  then show ?case
  proof cases
    case 1
    show ?thesis unfolding 1 using a by (rule gen_row_in_range)
  next
    case 2
    with b show ?thesis by (rule Cons.IH)
  qed
qed

section \<open>The generator completes\<close>

lemma abs_rne_le:
  assumes "\<bar>q\<bar> \<le> 2 ^ k"
  shows "\<bar>rne q\<bar> \<le> 2 ^ k"
proof -
  have u: "q \<le> of_int (2 ^ k)" and l: "of_int (- (2 ^ k)) \<le> q"
    using assms by (simp_all add: abs_le_iff)
  from u have "rne q \<le> rne (of_int (2 ^ k))" by (rule rne_mono)
  then have a: "rne q \<le> 2 ^ k" by (simp only: rne_of_int)
  from l have "rne (of_int (- (2 ^ k))) \<le> rne q" by (rule rne_mono)
  then have b: "- (2 ^ k) \<le> rne q" by (simp only: rne_of_int)
  from a b show ?thesis by (simp add: abs_le_iff)
qed

lemma py_round_fin:
  assumes "fin_le k x" and "\<bar>c\<bar> \<le> 2 ^ k"
  shows "\<exists>n. py_round (py_max (Fin (of_int c)) x) = Inr n \<and> \<bar>n\<bar> \<le> 2 ^ k"
proof -
  from assms(1) obtain q where q: "x = Fin q" "\<bar>q\<bar> \<le> 2 ^ k" by (auto simp: fin_le_def)
  show ?thesis
  proof (cases "f_lt (Fin (of_int c)) x")
    case True
    then show ?thesis using q abs_rne_le[OF q(2)] by (simp add: py_max_def)
  next
    case False
    then show ?thesis using assms(2) by (simp add: py_max_def)
  qed
qed

lemma normal_sample: "bounded_samples lib \<Longrightarrow> fin_le 64 (fst (rng_normal lib loc scale g))"
  by (auto simp: bounded_samples_def fin_le_def)

lemma uniform_sample: "bounded_samples lib \<Longrightarrow> fin_le 64 (fst (rng_uniform lib lo hi g))"
  by (auto simp: bounded_samples_def fin_le_def)

lemma dept_constants_eval:
  "dept_constants ''Engineering'' = Inr (95, lit (16/10), lit (11/1000), 47, lit (82/100))"
  "dept_constants ''Sales'' = Inr (62, lit 1, lit (19/1000), 34, lit (79/100))"
  "dept_constants ''Operations'' = Inr (54, lit (7/10), lit (15/1000), 31, lit (84/100))"
  "dept_constants ''HR'' = Inr (18, lit (2/10), lit (10/1000), 29, lit (86/100))"
  "dept_constants ''Finance'' = Inr (21, lit (15/100), lit (9/1000), 36, lit (81/100))"
  "dept_constants ''Customer Success'' = Inr (37, lit (8/10), lit (17/1000), 26, lit (83/100))"
  by (simp_all add: dept_constants_def baseline_def trends_def turnover_base_def
      ttf_base_def offer_base_def)

lemma dept_constants_known:
  assumes "dept \<in> set departments"
  shows "\<exists>b t tb tf ob. dept_constants dept = Inr (b, t, tb, tf, ob)
      \<and> \<bar>b\<bar> \<le> 2 ^ 7 \<and> fin_le 1 t \<and> \<bar>tf\<bar> \<le> 2 ^ 6"
proof -
  define P where "P = (\<lambda>dept. \<exists>b t tb tf ob. dept_constants dept = Inr (b, t, tb, tf, ob)
      \<and> \<bar>b\<bar> \<le> 2 ^ 7 \<and> fin_le 1 t \<and> \<bar>tf\<bar> \<le> 2 ^ 6)"
  have t: "fin_le 1 (lit (16/10))" "fin_le 1 (lit 1)" "fin_le 1 (lit (7/10))"
    "fin_le 1 (lit (2/10))" "fin_le 1 (lit (15/100))" "fin_le 1 (lit (8/10))"
    by (rule fin_le_lit, simp, simp)+
  have p1: "P ''Engineering''"
    unfolding P_def dept_constants_eval
    by (intro exI conjI) (rule refl, simp, rule t, simp)
  have p2: "P ''Sales''"
    unfolding P_def dept_constants_eval
    by (intro exI conjI) (rule refl, simp, rule t, simp)
  have p3: "P ''Operations''"
    unfolding P_def dept_constants_eval
    by (intro exI conjI) (rule refl, simp, rule t, simp)
  have p4: "P ''HR''"
    unfolding P_def dept_constants_eval
    by (intro exI conjI) (rule refl, simp, rule t, simp)
  have p5: "P ''Finance''"
    unfolding P_def dept_constants_eval
    by (intro exI conjI) (rule refl, simp, rule t, simp)
  have p6: "P ''Customer Success''"
    unfolding P_def dept_constants_eval
    by (intro exI conjI) (rule refl, simp, rule t, simp)
  have "list_all P departments"
    unfolding departments_def by (simp add: p1 p2 p3 p4 p5 p6)
  then have "P dept" using assms by (simp only: list_all_iff)
  then show ?thesis by (simp only: P_def)
qed

lemma fin_le_bounded_unit:
  assumes "0 \<le> a" and "a \<le> b" and "b \<le> 1"
  shows "fin_le 0 (bounded v (lit a) (lit b))"
proof -
  have la: "lit a = Fin (fl a)" using assms by (intro lit_small[of a 0]) (simp_all add: abs_le_iff)
  have lb: "lit b = Fin (fl b)" using assms by (intro lit_small[of b 0]) (simp_all add: abs_le_iff)
  have ab: "fl a \<le> fl b" using assms(2) by (rule fl_mono)
  have a0: "0 \<le> fl a" using assms by (intro fl_unit) simp_all
  have b1: "fl b \<le> 1" using assms by (intro fl_unit) simp_all
  from bounded_range[OF ab, of v] obtain r
    where r: "bounded v (Fin (fl a)) (Fin (fl b)) = Fin r" "fl a \<le> r" "r \<le> fl b" by blast
  have "\<bar>r\<bar> \<le> 2 ^ 0" using r a0 b1 by (simp add: abs_le_iff)
  with r(1) show ?thesis unfolding la lb by (rule fin_leI)
qed

lemma fin_le_if: "fin_le k a \<Longrightarrow> fin_le k b \<Longrightarrow> fin_le k (if c then a else b)"
  by simp

lemma fin_le_Fin: "\<bar>q\<bar> \<le> 2 ^ k \<Longrightarrow> fin_le k (Fin q)"
  by (simp add: fin_le_def)

lemma gen_row_succeeds:
  assumes bs: "bounded_samples lib" and d: "dept \<in> set departments" and i: "i \<le> 128"
  shows "\<exists>row g'. gen_row lib i mon dept g = Inr (row, g')"
proof -
  from dept_constants_known[OF d] obtain b t tb tf ob where
    dc: "dept_constants dept = Inr (b, t, tb, tf, ob)" and b: "\<bar>b\<bar> \<le> 2 ^ 7"
    and t: "fin_le 1 t" and tf: "\<bar>tf\<bar> \<le> 2 ^ 6" by blast
  note nz = normal_sample[OF bs] and uz = uniform_sample[OF bs]
  let ?sb = "if snd mon \<in> {3, 4, 9, 10} then lit (12/10) else lit (8/10)"
  let ?r1 = "rng_normal lib (Fin 0) (lit (12/10)) g"
  let ?base = "f_add (f_add (f_of_int b) (f_mul t (f_of_int (int i)))) (fst ?r1)"
  have fb: "fin_le 7 (f_of_int b)" using b by (rule fin_le_of_int) simp
  have "\<bar>int i\<bar> \<le> 2 ^ 7" using i by simp
  then have fi: "fin_le 7 (f_of_int (int i))" by (rule fin_le_of_int) simp
  have "fin_le (1 + 7) (f_mul t (f_of_int (int i)))" using t fi by (rule fin_le_mul) simp
  then have "fin_le (Suc 8) (f_add (f_of_int b) (f_mul t (f_of_int (int i))))"
    using fb by (intro fin_le_add[of 7 _ "1 + 7"]) simp_all
  then have "fin_le (Suc 64) ?base"
    by (rule fin_le_add[OF _ nz]) simp_all
  then have b65: "fin_le 65 ?base" by simp
  from py_round_fin[OF b65, of 8] obtain hc where
    hc: "py_round (py_max (Fin 8) ?base) = Inr hc" and hcb: "\<bar>hc\<bar> \<le> 2 ^ 65" by auto
  have fhc: "fin_le 65 (f_of_int hc)" using hcb by (rule fin_le_of_int) simp
  let ?hire = "f_mul (lit (35/1000)) ?sb"
  let ?r2 = "rng_normal lib (Fin 0) (lit 1) (snd ?r1)"
  let ?x2 = "f_add (f_mul (f_of_int hc) ?hire) (fst ?r2)"
  have "fin_le 1 ?sb" by (rule fin_le_if; rule fin_le_lit; simp)
  with fin_le_lit[of "35/1000" 0] have "fin_le (0 + 1) ?hire" by (intro fin_le_mul) simp_all
  with fhc have "fin_le (65 + (0 + 1)) (f_mul (f_of_int hc) ?hire)" by (rule fin_le_mul) simp
  then have "fin_le (Suc 66) ?x2" by (rule fin_le_add[OF _ nz]) simp_all
  then have b67: "fin_le 67 ?x2" by simp
  from py_round_fin[OF b67, of 0] obtain nh where
    nh: "py_round (py_max (Fin 0) ?x2) = Inr nh" and nhb: "\<bar>nh\<bar> \<le> 2 ^ 67" by auto
  have fnh: "fin_le 67 (f_of_int nh)" using nhb by (rule fin_le_of_int) simp
  let ?r3 = "rng_normal lib (Fin 0) (lit (35/10000)) (snd ?r2)"
  let ?tr = "bounded (f_add (f_add tb (fst ?r3)) (if snd mon \<in> {7, 8} then lit (2/1000) else Fin 0))
      (lit (4/1000)) (lit (5/100))"
  let ?r4 = "rng_normal lib (Fin 0) (lit (6/10)) (snd ?r3)"
  let ?x3 = "f_add (f_mul (f_of_int hc) ?tr) (fst ?r4)"
  have "fin_le 0 ?tr" by (rule fin_le_bounded_unit) simp_all
  with fhc have "fin_le (65 + 0) (f_mul (f_of_int hc) ?tr)" by (rule fin_le_mul) simp
  then have "fin_le (Suc 65) ?x3" by (rule fin_le_add[OF _ nz]) simp_all
  then have b66: "fin_le 66 ?x3" by simp
  from py_round_fin[OF b66, of 0] obtain tm where
    tm: "py_round (py_max (Fin 0) ?x3) = Inr tm" by auto
  let ?r5 = "rng_uniform lib (lit (11/10)) (lit (22/10)) (snd ?r4)"
  let ?r6 = "rng_normal lib (Fin 0) (lit (12/10)) (snd ?r5)"
  let ?x4 = "f_add (f_mul (f_of_int nh) (fst ?r5)) (fst ?r6)"
  have "fin_le (67 + 64) (f_mul (f_of_int nh) (fst ?r5))" using fnh uz by (rule fin_le_mul) simp
  then have "fin_le (Suc 131) ?x4" by (rule fin_le_add[OF _ nz]) simp_all
  then have b132: "fin_le 132 ?x4" by simp
  from py_round_fin[OF b132, of 0] obtain op where
    op: "py_round (py_max (Fin 0) ?x4) = Inr op" by auto
  let ?r7 = "rng_normal lib (Fin 0) (lit 4) (snd ?r6)"
  let ?x5 = "f_sub (f_add (f_of_int tf) (fst ?r7)) (if snd mon \<in> {10, 11} then Fin 1 else Fin 0)"
  have ftf: "fin_le 6 (f_of_int tf)" using tf by (rule fin_le_of_int) simp
  have f01: "fin_le 0 (if snd mon \<in> {10, 11} then Fin 1 else Fin 0)"
    by (rule fin_le_if; rule fin_le_Fin; simp)
  have "fin_le (Suc 64) (f_add (f_of_int tf) (fst ?r7))" by (rule fin_le_add[OF ftf nz]) simp_all
  then have "fin_le (Suc 65) ?x5" using f01 by (rule fin_le_sub) simp_all
  then have b66': "fin_le 66 ?x5" by simp
  from py_round_fin[OF b66', of 15] obtain ttf where
    ttf: "py_round (py_max (Fin 15) ?x5) = Inr ttf" by auto
  show ?thesis
    unfolding gen_row_def Let_def case_prod_beta
    by (simp only: dc sum.case fst_conv snd_conv hc nh tm op ttf) blast
qed

lemma gen_rows_succeeds:
  assumes bs: "bounded_samples lib"
  shows "(\<And>i mon d. (i, mon, d) \<in> set js \<Longrightarrow> i \<le> 128 \<and> d \<in> set departments)
     \<Longrightarrow> \<exists>rows. gen_rows lib js g = Inr rows"
proof (induction js arbitrary: g)
  case Nil
  show ?case by simp
next
  case (Cons j js)
  obtain i mon dept where j: "j = (i, mon, dept)" by (cases j)
  have "i \<le> 128 \<and> dept \<in> set departments" by (rule Cons.prems[of i mon dept]) (simp add: j)
  then obtain r g1 where a: "gen_row lib i mon dept g = Inr (r, g1)"
    using gen_row_succeeds[OF bs, of dept i mon g] by blast
  have "\<exists>rows. gen_rows lib js g1 = Inr rows"
  proof (rule Cons.IH)
    fix i' mon' d' assume "(i', mon', d') \<in> set js"
    then show "i' \<le> 128 \<and> d' \<in> set departments" by (intro Cons.prems[of i' mon' d']) simp
  qed
  then obtain rs where b: "gen_rows lib js g1 = Inr rs" by blast
  show ?case unfolding j by (simp add: a b)
qed

lemma gen_rows_keys:
  "gen_rows lib js g = Inr rows \<Longrightarrow>
     map (\<lambda>r. (month r, department r)) rows = map (\<lambda>(i, mon, d). (strftime_Y_m mon, d)) js"
proof (induction js arbitrary: g rows)
  case Nil
  then show ?case by simp
next
  case (Cons j js)
  obtain i mon dept where j: "j = (i, mon, dept)" by (cases j)
  from Cons.prems obtain r g1 rs where
    a: "gen_row lib i mon dept g = Inr (r, g1)" and b: "gen_rows lib js g1 = Inr rs"
    and c: "rows = r # rs"
    unfolding j by (auto split: sum.splits prod.splits)
  from gen_row_Inr[OF a] have k: "month r = strftime_Y_m mon" "department r = dept" by blast+
  from Cons.IH[OF b] show ?case unfolding c j by (simp add: k)
qed

lemma visits_keys:
  "map (\<lambda>(i, mon, d). (f mon, d))
     (concat (map (\<lambda>(i, mon). map (\<lambda>dept. (i, mon, dept)) ds) (enumerate n ms)))
   = List.product (map f ms) ds"
  by (induction ms arbitrary: n) (simp_all add: comp_def)

lemma visits_bounds:
  "(i, mon, d) \<in> set (concat (map (\<lambda>(i, mon). map (\<lambda>dept. (i, mon, dept)) ds) (enumerate n ms)))
   \<Longrightarrow> i < n + length ms \<and> d \<in> set ds"
  by (auto simp: in_set_enumerate_eq)

lemma months_eval:
  "months = [(2025, 2), (2025, 3), (2025, 4), (2025, 5), (2025, 6), (2025, 7), (2025, 8),
     (2025, 9), (2025, 10), (2025, 11), (2025, 12), (2026, 1)]"
  by (simp add: months_def date_range_MS_def upt_rec_numeral)

lemma month_labels:
  "map strftime_Y_m months = [''2025-02'', ''2025-03'', ''2025-04'', ''2025-05'', ''2025-06'',
     ''2025-07'', ''2025-08'', ''2025-09'', ''2025-10'', ''2025-11'', ''2025-12'', ''2026-01'']"
  unfolding months_eval by (simp add: strftime_Y_m_def digit_def)

lemma distinct_month_labels: "distinct (map strftime_Y_m months)"
  unfolding month_labels by simp

lemma distinct_departments: "distinct departments"
  by (simp add: departments_def)

lemma jobs_keys:
  "map (\<lambda>(i, mon, d). (strftime_Y_m mon, d)) jobs = List.product (map strftime_Y_m months) departments"
  unfolding jobs_def by (rule visits_keys)

lemma jobs_bounds: "(i, mon, d) \<in> set jobs \<Longrightarrow> i \<le> 128 \<and> d \<in> set departments"
proof -
  assume "(i, mon, d) \<in> set jobs"
  then have "i < 0 + length months \<and> d \<in> set departments"
    unfolding jobs_def by (rule visits_bounds)
  then show ?thesis by (simp add: months_eval)
qed

lemma generated_table:
  assumes "gen_rows lib jobs g = Inr rows"
  shows "map (\<lambda>r. (month r, department r)) rows = List.product (map strftime_Y_m months) departments"
    and "length rows = 72"
    and "distinct (map (\<lambda>r. (month r, department r)) rows)"
proof -
  show k: "map (\<lambda>r. (month r, department r)) rows
      = List.product (map strftime_Y_m months) departments"
    using gen_rows_keys[OF assms] by (simp only: jobs_keys)
  have "length (map (\<lambda>r. (month r, department r)) rows) = 72"
    unfolding k by (simp add: months_eval departments_def)
  then show "length rows = 72" by simp
  show "distinct (map (\<lambda>r. (month r, department r)) rows)"
    unfolding k using distinct_month_labels distinct_departments by (rule distinct_product)
qed

lemma jobs_succeed:
  assumes "bounded_samples lib"
  shows "\<exists>rows. gen_rows lib jobs g = Inr rows"
  using assms by (rule gen_rows_succeeds) (rule jobs_bounds)

lemma data_not_DATA_PATH: "''data'' \<noteq> DATA_PATH"
  by (simp add: DATA_PATH_def)

lemma generate_main_result:
  assumes "gen_rows lib jobs (rng_seed lib 42) = Inr rows" and "''data'' \<notin> dom (files fs)"
  shows "generate_main lib g fs =
     (None, fs\<lparr>dirs := insert ''data'' (dirs fs), files := (files fs)(DATA_PATH \<mapsto> Csv rows)\<rparr>)"
  using assms by (simp add: generate_main_def mkdir_def)

lemma generate_main_None:
  assumes "generate_main lib g fs = (None, fs1)"
  shows "\<exists>rows. gen_rows lib jobs (rng_seed lib 42) = Inr rows \<and> ''data'' \<notin> dom (files fs)
     \<and> fs1 = fs\<lparr>dirs := insert ''data'' (dirs fs), files := (files fs)(DATA_PATH \<mapsto> Csv rows)\<rparr>"
  using assms by (auto simp: generate_main_def mkdir_def split: sum.splits if_splits)

lemma bounded_samples_quiet: "bounded_samples quiet_random"
proof -
  have "\<exists>z::rat. 3 / 2 = z \<and> \<bar>z\<bar> \<le> 2 ^ 64" by (rule exI[of _ "3 / 2"]) simp
  then show ?thesis by (simp add: bounded_samples_def quiet_random_def)
qed

section \<open>The generated file\<close>

lemma generate_main_ignores_state: "generate_main lib g fs = generate_main lib g' fs"
  by (simp add: generate_main_def)

lemma generate_main_again:
  assumes "generate_main lib g fs = (None, fs1)"
  shows "generate_main lib g' fs1 = (None, fs1)"
proof -
  from generate_main_None[OF assms] obtain rows where
    r: "gen_rows lib jobs (rng_seed lib 42) = Inr rows" and d: "''data'' \<notin> dom (files fs)"
    and f: "fs1 = fs\<lparr>dirs := insert ''data'' (dirs fs), files := (files fs)(DATA_PATH \<mapsto> Csv rows)\<rparr>"
    by blast
  have d1: "''data'' \<notin> dom (files fs1)" using d data_not_DATA_PATH by (simp add: f)
  have "generate_main lib g' fs1 =
      (None, fs1\<lparr>dirs := insert ''data'' (dirs fs1), files := (files fs1)(DATA_PATH \<mapsto> Csv rows)\<rparr>)"
    using r d1 by (rule generate_main_result)
  also have "fs1\<lparr>dirs := insert ''data'' (dirs fs1), files := (files fs1)(DATA_PATH \<mapsto> Csv rows)\<rparr> = fs1"
    by (simp add: f)
  finally show ?thesis .
qed

lemma with_data_no_file: "''data'' \<notin> dom (files with_data)"
  using data_not_DATA_PATH by (simp add: with_data_def)

lemma bare_checkout_no_file: "''data'' \<notin> dom (files bare_checkout)"
  by (simp add: bare_checkout_def)

text \<open>
  Claim C8. A run of the generator that completes writes a table that is determined by
  the seed 42 and the sampler alone: the state of the process-wide random generator
  before the run has no influence at all, two completed runs write the same table
  whatever the file systems they started from, the table is the one that the loop
  builds from the state that \<open>seed(42)\<close> installs, and a second run on the file system
  that a first run left changes nothing.
\<close>

theorem generator_deterministic:
  assumes "generate_main lib g fs = (None, fs1)" and "generate_main lib g' fs' = (None, fs2)"
  shows "files fs1 DATA_PATH = files fs2 DATA_PATH
     \<and> (\<exists>rows. gen_rows lib jobs (rng_seed lib 42) = Inr rows
           \<and> files fs1 DATA_PATH = Some (Csv rows))
     \<and> generate_main lib g' fs = generate_main lib g fs
     \<and> generate_main lib g' fs1 = (None, fs1)"
proof -
  from generate_main_None[OF assms(1)] obtain rows where
    r: "gen_rows lib jobs (rng_seed lib 42) = Inr rows"
    and f: "fs1 = fs\<lparr>dirs := insert ''data'' (dirs fs), files := (files fs)(DATA_PATH \<mapsto> Csv rows)\<rparr>"
    by blast
  from generate_main_None[OF assms(2)] obtain rows' where
    r': "gen_rows lib jobs (rng_seed lib 42) = Inr rows'"
    and f': "fs2 = fs'\<lparr>dirs := insert ''data'' (dirs fs'), files := (files fs')(DATA_PATH \<mapsto> Csv rows')\<rparr>"
    by blast
  from r r' have e: "rows' = rows" by simp
  have a: "files fs1 DATA_PATH = Some (Csv rows)" by (simp add: f)
  have b: "files fs2 DATA_PATH = Some (Csv rows)" by (simp add: f' e)
  have c: "generate_main lib g' fs = generate_main lib g fs" by (rule generate_main_ignores_state)
  have d: "generate_main lib g' fs1 = (None, fs1)" using assms(1) by (rule generate_main_again)
  from a b c d r show ?thesis by simp
qed

theorem generator_deterministic_witness:
  "\<exists>fs1 fs2. generate_main quiet_random 0 bare_checkout = (None, fs1)
     \<and> generate_main quiet_random 7 with_data = (None, fs2)
     \<and> files fs1 DATA_PATH = files fs2 DATA_PATH
     \<and> (\<exists>rows. gen_rows quiet_random jobs (rng_seed quiet_random 42) = Inr rows
           \<and> files fs1 DATA_PATH = Some (Csv rows))
     \<and> generate_main quiet_random 7 bare_checkout = generate_main quiet_random 0 bare_checkout
     \<and> generate_main quiet_random 7 fs1 = (None, fs1)"
proof -
  from jobs_succeed[OF bounded_samples_quiet] obtain rows where
    r: "gen_rows quiet_random jobs (rng_seed quiet_random 42) = Inr rows" by blast
  note a = generate_main_result[OF r bare_checkout_no_file, of 0]
  note b = generate_main_result[OF r with_data_no_file, of 7]
  from generator_deterministic[OF a b] a b show ?thesis by blast
qed

text \<open>
  Claim C9. With a sampler whose samples are finite and of magnitude at most \<open>2 ^ 64\<close>,
  and no regular file in the place of the directory \<open>data\<close>, the generator completes and
  the file it writes parses to exactly 72 rows. Their (month, department) keys are, in
  order, the pairs of the 12 month labels \<open>2025-02\<close> to \<open>2026-01\<close> with the 6 departments,
  so every pair occurs and none occurs twice. The columns written are the columns of the
  loader's input, by name and in order, and they include every column the report
  builder reads.
\<close>

theorem generated_file_rows:
  assumes "bounded_samples lib" and "''data'' \<notin> dom (files fs)"
  shows "\<exists>rows fs1. generate_main lib g fs = (None, fs1)
     \<and> read_csv fs1 DATA_PATH = Inr rows
     \<and> length rows = 72 \<and> length months = 12 \<and> length departments = 6
     \<and> map (\<lambda>r. (month r, department r)) rows
         = List.product (map strftime_Y_m months) departments
     \<and> set (map (\<lambda>r. (month r, department r)) rows)
         = set (map strftime_Y_m months) \<times> set departments
     \<and> distinct (map (\<lambda>r. (month r, department r)) rows)
     \<and> map strftime_Y_m months = [''2025-02'', ''2025-03'', ''2025-04'', ''2025-05'',
          ''2025-06'', ''2025-07'', ''2025-08'', ''2025-09'', ''2025-10'', ''2025-11'',
          ''2025-12'', ''2026-01'']
     \<and> generated_columns = loader_columns
     \<and> set columns_read \<subseteq> set generated_columns"
proof -
  from jobs_succeed[OF assms(1)] obtain rows where
    r: "gen_rows lib jobs (rng_seed lib 42) = Inr rows" by blast
  let ?fs1 = "fs\<lparr>dirs := insert ''data'' (dirs fs), files := (files fs)(DATA_PATH \<mapsto> Csv rows)\<rparr>"
  note t = generated_table[OF r]
  have a: "generate_main lib g fs = (None, ?fs1)" using r assms(2) by (rule generate_main_result)
  have b: "read_csv ?fs1 DATA_PATH = Inr rows" by (simp add: read_csv_def)
  have c: "length months = 12" "length departments = 6"
    by (simp_all add: months_eval departments_def)
  have d: "set (map (\<lambda>r. (month r, department r)) rows)
      = set (map strftime_Y_m months) \<times> set departments"
    unfolding t(1) by (rule set_product)
  have e: "generated_columns = loader_columns"
    by (simp only: generated_columns_def loader_columns_def)
  have f: "set columns_read \<subseteq> set generated_columns"
    by (simp add: columns_read_def generated_columns_def)
  show ?thesis
    by (intro exI[of _ rows] exI[of _ ?fs1] conjI a b c d e f t month_labels)
qed

theorem generated_file_rows_witness:
  "bounded_samples quiet_random \<and> ''data'' \<notin> dom (files bare_checkout)
   \<and> (\<exists>rows fs1. generate_main quiet_random 0 bare_checkout = (None, fs1)
     \<and> read_csv fs1 DATA_PATH = Inr rows
     \<and> length rows = 72
     \<and> map (\<lambda>r. (month r, department r)) rows
         = List.product (map strftime_Y_m months) departments
     \<and> distinct (map (\<lambda>r. (month r, department r)) rows))"
  using generated_file_rows[OF bounded_samples_quiet bare_checkout_no_file, of 0]
    bounded_samples_quiet bare_checkout_no_file
  by blast

text \<open>
  Claim C10. Whatever the samples are (infinities and NaNs included), every row that the
  loop of the generator produces, over any sequence of months and departments and from
  any generator state, has headcount at least 8, new hires, terminations and open
  positions at least 0, time to fill at least 15 days, an offer acceptance rate in
  [62, 95] and a turnover rate in [0.4, 5] (both in percent); so has every row of a file
  that the generator writes. With samples that are finite and of magnitude at most
  \<open>2 ^ 64\<close> the loop does produce its 72 rows.
\<close>

theorem generated_rows_in_range:
  "(gen_rows lib js g = Inr rows \<longrightarrow> (\<forall>row \<in> set rows. row_in_range row))
   \<and> (generate_main lib g0 fs = (None, fs1) \<longrightarrow>
        (\<exists>rows1. files fs1 DATA_PATH = Some (Csv rows1) \<and> (\<forall>row \<in> set rows1. row_in_range row)))
   \<and> (bounded_samples lib \<longrightarrow>
        (\<exists>rows2. gen_rows lib jobs g = Inr rows2 \<and> length rows2 = 72
           \<and> (\<forall>row \<in> set rows2. row_in_range row)))"
proof (intro conjI impI)
  assume "gen_rows lib js g = Inr rows"
  then show "\<forall>row \<in> set rows. row_in_range row" by (blast intro: gen_rows_in_range)
next
  assume "generate_main lib g0 fs = (None, fs1)"
  from generate_main_None[OF this] obtain rows1 where
    r: "gen_rows lib jobs (rng_seed lib 42) = Inr rows1"
    and f: "fs1 = fs\<lparr>dirs := insert ''data'' (dirs fs), files := (files fs)(DATA_PATH \<mapsto> Csv rows1)\<rparr>"
    by blast
  have "files fs1 DATA_PATH = Some (Csv rows1)" by (simp add: f)
  moreover have "\<forall>row \<in> set rows1. row_in_range row" using r by (blast intro: gen_rows_in_range)
  ultimately show "\<exists>rows1. files fs1 DATA_PATH = Some (Csv rows1) \<and> (\<forall>row \<in> set rows1. row_in_range row)"
    by blast
next
  assume "bounded_samples lib"
  from jobs_succeed[OF this] obtain rows2 where r: "gen_rows lib jobs g = Inr rows2" by blast
  have "length rows2 = 72" using r by (rule generated_table)
  moreover have "\<forall>row \<in> set rows2. row_in_range row" using r by (blast intro: gen_rows_in_range)
  ultimately show "\<exists>rows2. gen_rows lib jobs g = Inr rows2 \<and> length rows2 = 72
           \<and> (\<forall>row \<in> set rows2. row_in_range row)"
    using r by blast
qed

theorem generated_rows_in_range_witness:
  "bounded_samples quiet_random
   \<and> (\<exists>rows. gen_rows quiet_random jobs 42 = Inr rows \<and> length rows = 72
         \<and> list_all row_in_range rows)"
  using generated_rows_in_range[of quiet_random jobs 42 "[]" 42 bare_checkout bare_checkout]
    bounded_samples_quiet
  by (auto simp: list_all_iff)

end
